theory Spec2Isabelle
  imports Main
begin

section \<open>Python containers\<close>

text \<open>
  The module \<^verbatim>\<open>leapp/snactor/commands/discover.py\<close> stores its graph in Python sets,
  dictionaries and \<^verbatim>\<open>defaultdict\<close>s.

  \<^item> A Python \<^verbatim>\<open>set\<close> is a list without repetitions; \<^verbatim>\<open>s.add(x)\<close> appends \<open>x\<close>
    when it is not there. Python leaves the iteration order of a set open; the
    model iterates in insertion order, and the theorems below speak about
    membership (\<open>set\<close>) wherever the order is not the subject.
  \<^item> A \<^verbatim>\<open>dict\<close> is an association list with distinct keys, in insertion order.
  \<^item> A \<^verbatim>\<open>defaultdict\<close> is a \<^verbatim>\<open>dict\<close> together with the default value of its
    factory. Reading a missing key stores the default under the key and
    returns it, so a read returns the new dictionary as well.
\<close>

definition set_add :: "'a list \<Rightarrow> 'a \<Rightarrow> 'a list" where
  "set_add s x = (if x \<in> set s then s else s @ [x])"

text \<open>\<^verbatim>\<open>d[k]\<close> on a \<^verbatim>\<open>defaultdict\<close> whose factory yields \<open>dflt\<close>: the value and
  the dictionary after the read.\<close>

definition dd_get :: "'v \<Rightarrow> ('k \<times> 'v) list \<Rightarrow> 'k \<Rightarrow> 'v \<times> ('k \<times> 'v) list" where
  "dd_get dflt d k =
     (case map_of d k of
        Some v \<Rightarrow> (v, d)
      | None \<Rightarrow> (dflt, d @ [(k, dflt)]))"

text \<open>\<^verbatim>\<open>d[k]\<close> followed by an in-place change \<open>f\<close> of the object found there
  (\<^verbatim>\<open>d[k].add(x)\<close>, \<^verbatim>\<open>d[k][k2] = v\<close>): the entry of \<open>k\<close> is replaced where it
  stands, or created from the default at the end.\<close>

fun dd_modify :: "'v \<Rightarrow> ('v \<Rightarrow> 'v) \<Rightarrow> 'k \<Rightarrow> ('k \<times> 'v) list \<Rightarrow> ('k \<times> 'v) list" where
  "dd_modify dflt f k [] = [(k, f dflt)]"
| "dd_modify dflt f k ((k', v) # d) =
     (if k' = k then (k', f v) # d else (k', v) # dd_modify dflt f k d)"

text \<open>\<^verbatim>\<open>d[k] = v\<close> on a dictionary.\<close>

definition dict_set :: "'k \<Rightarrow> 'v \<Rightarrow> ('k \<times> 'v) list \<Rightarrow> ('k \<times> 'v) list" where
  "dict_set k v d = dd_modify v (\<lambda>_. v) k d"

section \<open>The graph\<close>

text \<open>
  \<^verbatim>\<open>
  class RepositoryGraph(object):
      def __init__(self):
          # source_actor -> destination_actor -> [message types]
          self.edges = defaultdict(functools.partial(defaultdict, set))
          self.reverse_edges = defaultdict(set)
          self.actors = set()
  \<close>
\<close>

record RepositoryGraph =
  edges :: "(string \<times> (string \<times> string list) list) list"
  reverse_edges :: "(string \<times> string list) list"
  actors :: "string list"

definition new_graph :: RepositoryGraph where
  "new_graph = \<lparr>edges = [], reverse_edges = [], actors = []\<rparr>"

text \<open>
  \<^verbatim>\<open>
  def add_edge(self, source_actor, msg, target_actor):
      self.actors.add(source_actor)
      self.actors.add(target_actor)
      self.edges[source_actor][target_actor].add(msg)
      self.reverse_edges[target_actor].add(source_actor)
  \<close>
\<close>

definition add_edge :: "RepositoryGraph \<Rightarrow> string \<Rightarrow> string \<Rightarrow> string \<Rightarrow> RepositoryGraph" where
  "add_edge g source_actor msg target_actor =
     \<lparr>edges = dd_modify [] (dd_modify [] (\<lambda>msgs. set_add msgs msg) target_actor)
                source_actor (edges g),
      reverse_edges = dd_modify [] (\<lambda>srcs. set_add srcs source_actor) target_actor
                        (reverse_edges g),
      actors = set_add (set_add (actors g) source_actor) target_actor\<rparr>"

text \<open>
  \<^verbatim>\<open>
  def iter_edges(self):
      for source_actor, target_actors in self.edges.items():
          for target_actor, edge_msgs in target_actors.items():
              for edge_msg in edge_msgs:
                  yield (source_actor, edge_msg, target_actor)
  \<close>
\<close>

definition iter_edges :: "RepositoryGraph \<Rightarrow> (string \<times> string \<times> string) list" where
  "iter_edges g =
     concat (map (\<lambda>(source_actor, target_actors).
       concat (map (\<lambda>(target_actor, edge_msgs).
         map (\<lambda>edge_msg. (source_actor, edge_msg, target_actor)) edge_msgs)
       target_actors))
     (edges g))"

section \<open>Building the graph from actor definitions\<close>

text \<open>An actor definition as far as \<^verbatim>\<open>construct_graph_from_actors\<close> reads it: its
  \<^verbatim>\<open>class_name\<close> and the \<^verbatim>\<open>__name__\<close> of every model in its \<^verbatim>\<open>produces\<close> and
  \<^verbatim>\<open>consumes\<close> tuples.\<close>

record actor_definition =
  class_name :: string
  produces :: "string list"
  consumes :: "string list"

text \<open>
  \<^verbatim>\<open>
  producers_table = defaultdict(set)  # maps message_type to producers
  consumers_table = defaultdict(set)  # maps message_type to consumers
  for actor_def in actor_definitions:
      actor_name = actor_def.class_name
      for produced_message in actor_def.produces:
          msg_type = produced_message.__name__
          producers_table[msg_type].add(actor_name)
      for consumed_message in actor_def.consumes:
          msg_type = consumed_message.__name__
          consumers_table[msg_type].add(actor_name)
  \<close>
\<close>

definition table_add :: "string \<Rightarrow> string list \<Rightarrow> (string \<times> string list) list
    \<Rightarrow> (string \<times> string list) list" where
  "table_add actor_name msgs table =
     fold (\<lambda>msg_type. dd_modify [] (\<lambda>names. set_add names actor_name) msg_type) msgs table"

definition build_tables :: "actor_definition list
    \<Rightarrow> (string \<times> string list) list \<times> (string \<times> string list) list" where
  "build_tables actor_definitions =
     fold (\<lambda>actor_def (producers_table, consumers_table).
             (table_add (class_name actor_def) (produces actor_def) producers_table,
              table_add (class_name actor_def) (consumes actor_def) consumers_table))
       actor_definitions ([], [])"

text \<open>
  \<^verbatim>\<open>
  spoken_messages = set(producers_table.keys()).intersection(consumers_table.keys())
  graph = RepositoryGraph()
  for msg_type in spoken_messages:
      consumers = consumers_table[msg_type]
      producers = producers_table[msg_type]
      for consumer, producer in itertools.product(consumers, producers):
          graph.add_edge(producer, msg_type, consumer)
  return graph
  \<close>
\<close>

definition spoken_messages :: "(string \<times> string list) list \<Rightarrow> (string \<times> string list) list
    \<Rightarrow> string list" where
  "spoken_messages producers_table consumers_table =
     filter (\<lambda>msg_type. msg_type \<in> set (map fst consumers_table)) (map fst producers_table)"

definition add_spoken :: "(string \<times> string list) list \<Rightarrow> (string \<times> string list) list
    \<Rightarrow> string \<Rightarrow> RepositoryGraph \<Rightarrow> RepositoryGraph" where
  "add_spoken producers_table consumers_table msg_type graph =
     (let consumers = fst (dd_get [] consumers_table msg_type);
          producers = fst (dd_get [] producers_table msg_type)
      in fold (\<lambda>(consumer, producer) g. add_edge g producer msg_type consumer)
           (List.product consumers producers) graph)"

definition construct_graph_from_actors :: "actor_definition list \<Rightarrow> RepositoryGraph" where
  "construct_graph_from_actors actor_definitions =
     (case build_tables actor_definitions of
        (producers_table, consumers_table) \<Rightarrow>
          fold (add_spoken producers_table consumers_table)
            (spoken_messages producers_table consumers_table) new_graph)"

section \<open>Rendering the graph\<close>

text \<open>\<^verbatim>\<open>sep.join(items)\<close> on strings.\<close>

fun join :: "string \<Rightarrow> string list \<Rightarrow> string" where
  "join sep [] = []"
| "join sep [x] = x"
| "join sep (x # y # ys) = x @ sep @ join sep (y # ys)"

definition newline :: string where
  "newline = [CHR 0x0A]"

text \<open>
  \<^verbatim>\<open>
  def into_dot(self):
      header = ('digraph "leapp-actors" {\n'
                'nodesep=2\n'
                'ranksep=2\n'
                'rankdir=LR')
      footer = '}'
      node_declarations = ['{0} [label={0}]'.format(actor) for actor in self.actors]
      edge_declarations = [
          '{source} -> {target} [label={msg}]'.format(source=source, target=target, msg=msg_type)
          for source, msg_type, target in self.iter_edges()
      ]
      return '{header}\n {nodes}\n {edges}\n {footer}\n'.format(
          header=header, nodes='\n'.join(node_declarations),
          edges='\n'.join(edge_declarations), footer=footer)
  \<close>
\<close>

definition header :: string where
  \<open>header = ''digraph "leapp-actors" {'' @ newline @ ''nodesep=2'' @ newline
     @ ''ranksep=2'' @ newline @ ''rankdir=LR''\<close>

definition footer :: string where
  "footer = ''}''"

definition node_declaration :: "string \<Rightarrow> string" where
  "node_declaration actor = actor @ '' [label='' @ actor @ '']''"

definition edge_declaration :: "string \<times> string \<times> string \<Rightarrow> string" where
  "edge_declaration = (\<lambda>(source, msg_type, target).
     source @ '' -> '' @ target @ '' [label='' @ msg_type @ '']'')"

definition into_dot :: "RepositoryGraph \<Rightarrow> string" where
  "into_dot g =
     (let node_declarations = map node_declaration (actors g);
          edge_declarations = map edge_declaration (iter_edges g)
      in header @ newline @ '' '' @ join newline node_declarations
           @ newline @ '' '' @ join newline edge_declarations
           @ newline @ '' '' @ footer @ newline)"

section \<open>Seeds of a scan\<close>

text \<open>
  \<^verbatim>\<open>
  def _collect_actors_for_entities(self, leapp_entities):
      forward_actors = set()
      backward_actors = set()
      for leapp_entity in leapp_entities:
          if leapp_entity in self.actors:
              forward_actors.add(leapp_entity)
              backward_actors.add(leapp_entity)
          else:
              msg_type = leapp_entity
              for source_actor, target_actors in self.edges.items():
                  for target_actor, msgs in target_actors.items():
                      if msg_type in msgs:
                          backward_actors.add(source_actor)
                          forward_actors.add(target_actor)
      return forward_actors, backward_actors
  \<close>
\<close>

definition collect_for_message :: "RepositoryGraph \<Rightarrow> string
    \<Rightarrow> string list \<times> string list \<Rightarrow> string list \<times> string list" where
  "collect_for_message g msg_type =
     fold (\<lambda>(source_actor, target_actors).
       fold (\<lambda>(target_actor, msgs) (forward_actors, backward_actors).
         if msg_type \<in> set msgs
         then (set_add forward_actors target_actor, set_add backward_actors source_actor)
         else (forward_actors, backward_actors))
       target_actors)
     (edges g)"

definition collect_actors_for_entities :: "RepositoryGraph \<Rightarrow> string list
    \<Rightarrow> string list \<times> string list" where
  "collect_actors_for_entities g leapp_entities =
     fold (\<lambda>leapp_entity (forward_actors, backward_actors).
       if leapp_entity \<in> set (actors g)
       then (set_add forward_actors leapp_entity, set_add backward_actors leapp_entity)
       else collect_for_message g leapp_entity (forward_actors, backward_actors))
     leapp_entities ([], [])"

section \<open>The scans\<close>

text \<open>
  The three scans share one loop body. A scan state is the graph (a read of
  \<^verbatim>\<open>self.edges[actor]\<close> or \<^verbatim>\<open>self.reverse_edges[actor]\<close> may store an empty
  entry in it), the visited set and the worklist.
  \<^verbatim>\<open>
  for target_actor in self.edges[actor]:
      if target_actor not in visited_actors:
          visited_actors.add(target_actor)
          worklist.append(target_actor)
  \<close>
  and the same over \<^verbatim>\<open>self.reverse_edges[actor]\<close>.
\<close>

type_synonym scan_state = "RepositoryGraph \<times> string list \<times> string list"

definition visit_all :: "string list \<Rightarrow> string list \<times> string list
    \<Rightarrow> string list \<times> string list" where
  "visit_all neighbours =
     fold (\<lambda>a (visited_actors, worklist).
       if a \<notin> set visited_actors then (set_add visited_actors a, worklist @ [a])
       else (visited_actors, worklist))
     neighbours"

definition follow_edges :: "string \<Rightarrow> scan_state \<Rightarrow> scan_state" where
  "follow_edges actor = (\<lambda>(g, visited_actors, worklist).
     case dd_get [] (edges g) actor of (target_actors, edges') \<Rightarrow>
       (case visit_all (map fst target_actors) (visited_actors, worklist) of
          (visited_actors', worklist') \<Rightarrow> (g\<lparr>edges := edges'\<rparr>, visited_actors', worklist')))"

definition follow_reverse_edges :: "string \<Rightarrow> scan_state \<Rightarrow> scan_state" where
  "follow_reverse_edges actor = (\<lambda>(g, visited_actors, worklist).
     case dd_get [] (reverse_edges g) actor of (source_actors, reverse_edges') \<Rightarrow>
       (case visit_all source_actors (visited_actors, worklist) of
          (visited_actors', worklist') \<Rightarrow>
            (g\<lparr>reverse_edges := reverse_edges'\<rparr>, visited_actors', worklist')))"

text \<open>The loops below end because every actor they visit for the first time is
  a target or a source stored in the graph, and there are finitely many.\<close>

definition graph_universe :: "RepositoryGraph \<Rightarrow> string set" where
  "graph_universe g =
     (\<Union>e \<in> set (edges g). fst ` set (snd e))
     \<union> (\<Union>e \<in> set (reverse_edges g). set (snd e))"

definition scan_measure :: "RepositoryGraph \<Rightarrow> string list \<Rightarrow> nat" where
  "scan_measure g visited_actors = card (graph_universe g - set visited_actors)"

lemma finite_graph_universe: "finite (graph_universe g)"
  by (auto simp: graph_universe_def)

lemma set_add_set [simp]: "set (set_add s x) = insert x (set s)"
  by (auto simp: set_add_def)

lemma set_add_distinct: "distinct s \<Longrightarrow> distinct (set_add s x)"
  by (auto simp: set_add_def)

lemma visit_all_new:
  "\<exists>new. visit_all ns (vis, wl) = (vis @ new, wl @ new)
     \<and> set new = set ns - set vis \<and> distinct new"
proof (induction ns arbitrary: vis wl)
  case Nil
  show ?case by (simp add: visit_all_def)
next
  case (Cons a ns)
  show ?case
  proof (cases "a \<in> set vis")
    case True
    from Cons.IH [of vis wl] obtain new where
      "visit_all ns (vis, wl) = (vis @ new, wl @ new)" "set new = set ns - set vis" "distinct new"
      by blast
    with True show ?thesis
      by (intro exI [of _ new]) (auto simp: visit_all_def)
  next
    case False
    from Cons.IH [of "vis @ [a]" "wl @ [a]"] obtain new where
      n: "visit_all ns (vis @ [a], wl @ [a]) = ((vis @ [a]) @ new, (wl @ [a]) @ new)"
         "set new = set ns - set (vis @ [a])" "distinct new"
      by blast
    from False n show ?thesis
      by (intro exI [of _ "a # new"]) (auto simp: visit_all_def set_add_def)
  qed
qed

lemma dd_get_cases:
  assumes "dd_get dflt d k = (v, d')"
  shows "(map_of d k = Some v \<and> d' = d) \<or> (map_of d k = None \<and> v = dflt \<and> d' = d @ [(k, dflt)])"
  using assms by (auto simp: dd_get_def split: option.splits)

lemma universe_edges_append [simp]:
  "graph_universe (g\<lparr>edges := edges g @ [(a, [])]\<rparr>) = graph_universe g"
  by (simp add: graph_universe_def)

lemma universe_reverse_edges_append [simp]:
  "graph_universe (g\<lparr>reverse_edges := reverse_edges g @ [(a, [])]\<rparr>) = graph_universe g"
  by (simp add: graph_universe_def)

lemma update_edges_same [simp]: "g\<lparr>edges := edges g\<rparr> = g"
  by simp

lemma follow_edges_universe:
  assumes "follow_edges a (g, vis, wl) = (g', vis', wl')"
  shows "graph_universe g' = graph_universe g"
proof -
  obtain tgts es where dg: "dd_get [] (edges g) a = (tgts, es)" by (cases "dd_get [] (edges g) a")
  with assms have "g' = g\<lparr>edges := es\<rparr>"
    by (auto simp: follow_edges_def split: prod.splits)
  with dd_get_cases [OF dg] show ?thesis by auto
qed

lemma follow_reverse_edges_universe:
  assumes "follow_reverse_edges a (g, vis, wl) = (g', vis', wl')"
  shows "graph_universe g' = graph_universe g"
proof -
  obtain srcs es where dg: "dd_get [] (reverse_edges g) a = (srcs, es)"
    by (cases "dd_get [] (reverse_edges g) a")
  with assms have "g' = g\<lparr>reverse_edges := es\<rparr>"
    by (auto simp: follow_reverse_edges_def split: prod.splits)
  with dd_get_cases [OF dg] show ?thesis by auto
qed

lemma measure_new:
  assumes "set new \<subseteq> graph_universe g" "set new \<inter> set vis = {}"
  shows "(new = [] ) \<or> scan_measure g (vis @ new) < scan_measure g vis"
proof (cases new)
  case Nil then show ?thesis by simp
next
  case (Cons x xs)
  with assms have "x \<in> graph_universe g - set vis" "x \<notin> graph_universe g - set (vis @ new)"
    by auto
  then have "graph_universe g - set (vis @ new) \<subset> graph_universe g - set vis"
    by auto
  then show ?thesis
    unfolding scan_measure_def
    by (intro disjI2 psubset_card_mono) (auto simp: finite_graph_universe)
qed

definition scan_progress :: "scan_state \<Rightarrow> scan_state \<Rightarrow> bool" where
  "scan_progress = (\<lambda>(g, vis, wl) (g', vis', wl').
     (vis' = vis \<and> wl' = wl \<and> scan_measure g' vis' = scan_measure g vis)
     \<or> scan_measure g' vis' < scan_measure g vis)"

lemma scan_progress_trans:
  assumes "scan_progress s1 s2" "scan_progress s2 s3"
  shows "scan_progress s1 s3"
proof -
  obtain g1 v1 w1 g2 v2 w2 g3 v3 w3 where
    s: "s1 = (g1, v1, w1)" "s2 = (g2, v2, w2)" "s3 = (g3, v3, w3)"
    by (metis prod_cases3)
  from assms have
    a: "(v2 = v1 \<and> w2 = w1 \<and> scan_measure g2 v2 = scan_measure g1 v1)
       \<or> scan_measure g2 v2 < scan_measure g1 v1"
    and b: "(v3 = v2 \<and> w3 = w2 \<and> scan_measure g3 v3 = scan_measure g2 v2)
       \<or> scan_measure g3 v3 < scan_measure g2 v2"
    unfolding s scan_progress_def by simp_all
  from a b have "(v3 = v1 \<and> w3 = w1 \<and> scan_measure g3 v3 = scan_measure g1 v1)
       \<or> scan_measure g3 v3 < scan_measure g1 v1"
    by auto
  then show ?thesis unfolding s scan_progress_def by simp
qed

lemma targets_in_universe:
  assumes "map_of (edges g) a = Some tgts"
  shows "fst ` set tgts \<subseteq> graph_universe g"
proof -
  from assms have "(a, tgts) \<in> set (edges g)" by (rule map_of_SomeD)
  then have "fst ` set (snd (a, tgts)) \<subseteq> (\<Union>e \<in> set (edges g). fst ` set (snd e))"
    by blast
  then show ?thesis by (auto simp: graph_universe_def)
qed

lemma sources_in_universe:
  assumes "map_of (reverse_edges g) a = Some srcs"
  shows "set srcs \<subseteq> graph_universe g"
proof -
  from assms have "(a, srcs) \<in> set (reverse_edges g)" by (rule map_of_SomeD)
  then have "set (snd (a, srcs)) \<subseteq> (\<Union>e \<in> set (reverse_edges g). set (snd e))"
    by blast
  then show ?thesis by (auto simp: graph_universe_def)
qed

lemma follow_edges_progress:
  assumes "follow_edges a (g, vis, wl) = (g', vis', wl')"
  shows "scan_progress (g, vis, wl) (g', vis', wl')"
proof -
  obtain tgts es where dg: "dd_get [] (edges g) a = (tgts, es)" by (cases "dd_get [] (edges g) a")
  obtain new where new: "visit_all (map fst tgts) (vis, wl) = (vis @ new, wl @ new)"
    "set new = set (map fst tgts) - set vis" "distinct new"
    using visit_all_new by blast
  from assms dg new have eq: "vis' = vis @ new" "wl' = wl @ new"
    by (auto simp: follow_edges_def)
  have "set (map fst tgts) \<subseteq> graph_universe g"
    using dd_get_cases [OF dg] targets_in_universe [of g a tgts] by auto
  with new have "set new \<subseteq> graph_universe g" "set new \<inter> set vis = {}" by auto
  from measure_new [OF this] eq follow_edges_universe [OF assms]
  have "(vis' = vis \<and> wl' = wl \<and> scan_measure g' vis' = scan_measure g vis)
     \<or> scan_measure g' vis' < scan_measure g vis"
    by (auto simp: scan_measure_def)
  then show ?thesis by (simp add: scan_progress_def)
qed

lemma follow_reverse_edges_progress:
  assumes "follow_reverse_edges a (g, vis, wl) = (g', vis', wl')"
  shows "scan_progress (g, vis, wl) (g', vis', wl')"
proof -
  obtain srcs es where dg: "dd_get [] (reverse_edges g) a = (srcs, es)"
    by (cases "dd_get [] (reverse_edges g) a")
  obtain new where new: "visit_all srcs (vis, wl) = (vis @ new, wl @ new)"
    "set new = set srcs - set vis" "distinct new"
    using visit_all_new by blast
  from assms dg new have eq: "vis' = vis @ new" "wl' = wl @ new"
    by (auto simp: follow_reverse_edges_def)
  have "set srcs \<subseteq> graph_universe g"
    using dd_get_cases [OF dg] sources_in_universe [of g a srcs] by auto
  with new have "set new \<subseteq> graph_universe g" "set new \<inter> set vis = {}" by auto
  from measure_new [OF this] eq follow_reverse_edges_universe [OF assms]
  have "(vis' = vis \<and> wl' = wl \<and> scan_measure g' vis' = scan_measure g vis)
     \<or> scan_measure g' vis' < scan_measure g vis"
    by (auto simp: scan_measure_def)
  then show ?thesis by (simp add: scan_progress_def)
qed

definition scan_order :: "((RepositoryGraph \<times> string list \<times> string list) \<times> (RepositoryGraph \<times> string list \<times> string list)) set" where
  "scan_order = inv_image (less_than <*lex*> less_than)
     (\<lambda>(g, worklist, visited_actors). (scan_measure g visited_actors, length worklist))"

lemma wf_scan_order: "wf scan_order"
  unfolding scan_order_def by (intro wf_inv_image wf_lex_prod wf_less_than)

lemma scan_order_step:
  assumes "worklist \<noteq> []"
    and "scan_progress (g, visited_actors, butlast worklist) (g', visited_actors', worklist')"
  shows "((g', worklist', visited_actors'), (g, worklist, visited_actors)) \<in> scan_order"
  using assms by (auto simp: scan_order_def scan_progress_def)

text \<open>
  \<^verbatim>\<open>
  def _forward_scan(self, start_at_actors):
      worklist = list(start_at_actors)
      visited_actors = set(start_at_actors)
      while worklist:
          actor = worklist.pop(-1)
          for target_actor in self.edges[actor]:
              if target_actor not in visited_actors:
                  visited_actors.add(target_actor)
                  worklist.append(target_actor)
      return visited_actors
  \<close>
  Each loop returns the visited set and the graph as the reads left it.
\<close>

function forward_loop :: "RepositoryGraph \<Rightarrow> string list \<Rightarrow> string list
    \<Rightarrow> string list \<times> RepositoryGraph" where
  "forward_loop g worklist visited_actors =
     (if worklist = [] then (visited_actors, g)
      else case follow_edges (last worklist) (g, visited_actors, butlast worklist) of
             (g', visited_actors', worklist') \<Rightarrow> forward_loop g' worklist' visited_actors')"
  by pat_completeness auto
termination
proof (relation scan_order, goal_cases)
  case 1
  show ?case by (rule wf_scan_order)
next
  case (2 g worklist visited_actors g' y visited_actors' worklist')
  then have "follow_edges (last worklist) (g, visited_actors, butlast worklist)
      = (g', visited_actors', worklist')"
    by simp
  from 2(1) follow_edges_progress [OF this] show ?case
    by (rule scan_order_step)
qed

text \<open>\<^verbatim>\<open>_backward_scan\<close>: the same loop over \<^verbatim>\<open>self.reverse_edges[actor]\<close>.\<close>

function backward_loop :: "RepositoryGraph \<Rightarrow> string list \<Rightarrow> string list
    \<Rightarrow> string list \<times> RepositoryGraph" where
  "backward_loop g worklist visited_actors =
     (if worklist = [] then (visited_actors, g)
      else case follow_reverse_edges (last worklist) (g, visited_actors, butlast worklist) of
             (g', visited_actors', worklist') \<Rightarrow> backward_loop g' worklist' visited_actors')"
  by pat_completeness auto
termination
proof (relation scan_order, goal_cases)
  case 1
  show ?case by (rule wf_scan_order)
next
  case (2 g worklist visited_actors g' y visited_actors' worklist')
  then have "follow_reverse_edges (last worklist) (g, visited_actors, butlast worklist)
      = (g', visited_actors', worklist')"
    by simp
  from 2(1) follow_reverse_edges_progress [OF this] show ?case
    by (rule scan_order_step)
qed

text \<open>\<^verbatim>\<open>_dfs_graph_scan\<close>: both inner loops, first over \<^verbatim>\<open>self.edges[actor]\<close>,
  then over \<^verbatim>\<open>self.reverse_edges[actor]\<close>.\<close>

function dfs_loop :: "RepositoryGraph \<Rightarrow> string list \<Rightarrow> string list
    \<Rightarrow> string list \<times> RepositoryGraph" where
  "dfs_loop g worklist visited_actors =
     (if worklist = [] then (visited_actors, g)
      else case follow_reverse_edges (last worklist)
                  (follow_edges (last worklist) (g, visited_actors, butlast worklist)) of
             (g', visited_actors', worklist') \<Rightarrow> dfs_loop g' worklist' visited_actors')"
  by pat_completeness auto
termination
proof (relation scan_order, goal_cases)
  case 1
  show ?case by (rule wf_scan_order)
next
  case (2 g worklist visited_actors g' y visited_actors' worklist')
  obtain g1 v1 w1 where
    f: "follow_edges (last worklist) (g, visited_actors, butlast worklist) = (g1, v1, w1)"
    by (cases "follow_edges (last worklist) (g, visited_actors, butlast worklist)")
  with 2 have r: "follow_reverse_edges (last worklist) (g1, v1, w1)
      = (g', visited_actors', worklist')"
    by simp
  from 2(1) scan_progress_trans [OF follow_edges_progress [OF f]
      follow_reverse_edges_progress [OF r]] show ?case
    by (rule scan_order_step)
qed

definition forward_scan :: "RepositoryGraph \<Rightarrow> string list \<Rightarrow> string list \<times> RepositoryGraph" where
  "forward_scan g start_at_actors = forward_loop g start_at_actors start_at_actors"

definition backward_scan :: "RepositoryGraph \<Rightarrow> string list \<Rightarrow> string list \<times> RepositoryGraph" where
  "backward_scan g start_at_actors = backward_loop g start_at_actors start_at_actors"

definition dfs_graph_scan :: "RepositoryGraph \<Rightarrow> string list \<Rightarrow> string list \<times> RepositoryGraph" where
  "dfs_graph_scan g start_at_actors = dfs_loop g start_at_actors start_at_actors"

section \<open>Extracting a subgraph\<close>

text \<open>\<^verbatim>\<open>s.update(other)\<close>, and \<^verbatim>\<open>s.union(other)\<close> on a copy of \<open>s\<close>.\<close>

definition set_update :: "'a list \<Rightarrow> 'a list \<Rightarrow> 'a list" where
  "set_update s other = fold (\<lambda>x s'. set_add s' x) other s"

text \<open>
  \<^verbatim>\<open>
  def make_subgraph_related_to(self, leapp_entities, tight=False):
      start_forward_at_actors, start_backward_at_actors = self._collect_actors_for_entities(leapp_entities)
      if tight:
          seen_actors = self._forward_scan(start_forward_at_actors)
          seen_actors.update(self._backward_scan(start_backward_at_actors))
      else:
          start_at_actors = start_forward_at_actors.union(start_backward_at_actors)
          seen_actors = self._dfs_graph_scan(start_at_actors)

      resulting_graph = RepositoryGraph()
      for source_actor, target_actors in self.edges.items():
          if source_actor not in seen_actors:
              continue
          for target_actor, msgs in target_actors.items():
              if target_actor not in seen_actors:
                  continue
              resulting_graph.edges[source_actor][target_actor] = set(msgs)
              resulting_graph.reverse_edges[target_actor].add(source_actor)
      resulting_graph.actors = seen_actors
      return resulting_graph
  \<close>
  \<open>seen_actors_of\<close> is the first half (the visited set and the graph after the
  scans), \<open>copy_seen_edges\<close> the second. \<open>make_subgraph_related_to\<close> returns the
  resulting graph together with \<^verbatim>\<open>self\<close> as the call leaves it.
\<close>

definition seen_actors_of :: "RepositoryGraph \<Rightarrow> string list \<Rightarrow> bool
    \<Rightarrow> string list \<times> RepositoryGraph" where
  "seen_actors_of g leapp_entities tight =
     (case collect_actors_for_entities g leapp_entities of
        (start_forward_at_actors, start_backward_at_actors) \<Rightarrow>
          if tight then
            (case forward_scan g start_forward_at_actors of
               (seen_actors, g1) \<Rightarrow>
                 (case backward_scan g1 start_backward_at_actors of
                    (seen_backward, g2) \<Rightarrow> (set_update seen_actors seen_backward, g2)))
          else dfs_graph_scan g (set_update start_forward_at_actors start_backward_at_actors))"

definition copy_seen_edges :: "RepositoryGraph \<Rightarrow> string list \<Rightarrow> RepositoryGraph" where
  "copy_seen_edges g seen_actors =
     (fold (\<lambda>(source_actor, target_actors) resulting_graph.
        if source_actor \<notin> set seen_actors then resulting_graph
        else fold (\<lambda>(target_actor, msgs) resulting_graph.
               if target_actor \<notin> set seen_actors then resulting_graph
               else resulting_graph
                 \<lparr>edges := dd_modify [] (dict_set target_actor msgs) source_actor
                             (edges resulting_graph),
                  reverse_edges := dd_modify [] (\<lambda>srcs. set_add srcs source_actor) target_actor
                             (reverse_edges resulting_graph)\<rparr>)
             target_actors resulting_graph)
      (edges g) new_graph)
     \<lparr>actors := seen_actors\<rparr>"

definition make_subgraph_related_to :: "RepositoryGraph \<Rightarrow> string list \<Rightarrow> bool
    \<Rightarrow> RepositoryGraph \<times> RepositoryGraph" where
  "make_subgraph_related_to g leapp_entities tight =
     (case seen_actors_of g leapp_entities tight of
        (seen_actors, g') \<Rightarrow> (copy_seen_edges g' seen_actors, g'))"

section \<open>Examples\<close>

text \<open>Three actors in a chain: \<open>A\<close> produces \<open>X\<close>, \<open>B\<close> consumes \<open>X\<close> and produces
  \<open>Y\<close>, \<open>C\<close> consumes \<open>Y\<close>.\<close>

definition chain_actors :: "actor_definition list" where
  "chain_actors =
     [\<lparr>class_name = ''A'', produces = [''X''], consumes = []\<rparr>,
      \<lparr>class_name = ''B'', produces = [''Y''], consumes = [''X'']\<rparr>,
      \<lparr>class_name = ''C'', produces = [], consumes = [''Y'']\<rparr>]"

definition chain_graph :: RepositoryGraph where
  "chain_graph =
     \<lparr>edges = [(''A'', [(''B'', [''X''])]), (''B'', [(''C'', [''Y''])])],
      reverse_edges = [(''B'', [''A'']), (''C'', [''B''])],
      actors = [''A'', ''B'', ''C'']\<rparr>"

text \<open>A fork: \<open>A\<close> produces \<open>X\<close> for \<open>B\<close> and \<open>C\<close>, and \<open>D\<close> produces \<open>Z\<close> for \<open>C\<close>.\<close>

definition fork_actors :: "actor_definition list" where
  "fork_actors =
     [\<lparr>class_name = ''A'', produces = [''X''], consumes = []\<rparr>,
      \<lparr>class_name = ''B'', produces = [], consumes = [''X'']\<rparr>,
      \<lparr>class_name = ''C'', produces = [], consumes = [''X'', ''Z'']\<rparr>,
      \<lparr>class_name = ''D'', produces = [''Z''], consumes = []\<rparr>]"

definition fork_graph :: RepositoryGraph where
  "fork_graph =
     \<lparr>edges = [(''A'', [(''B'', [''X'']), (''C'', [''X''])]), (''D'', [(''C'', [''Z''])])],
      reverse_edges = [(''B'', [''A'']), (''C'', [''A'', ''D''])],
      actors = [''A'', ''B'', ''C'', ''D'']\<rparr>"

text \<open>Two actor definitions with the same name: the first produces \<open>X\<close>, the
  second consumes it.\<close>

definition twice_named :: "actor_definition list" where
  "twice_named =
     [\<lparr>class_name = ''A'', produces = [''X''], consumes = []\<rparr>,
      \<lparr>class_name = ''A'', produces = [], consumes = [''X'']\<rparr>]"

section \<open>Edges as a set of triples\<close>

text \<open>\<open>dict_pairs E d\<close> flattens a dictionary whose values stand for sets: the
  pairs of a key and a member of its value.\<close>

definition dict_pairs :: "('v \<Rightarrow> 'x set) \<Rightarrow> ('k \<times> 'v) list \<Rightarrow> ('k \<times> 'x) set" where
  "dict_pairs E d = (\<Union>e \<in> set d. {fst e} \<times> E (snd e))"

lemma dict_pairs_Nil [simp]: "dict_pairs E [] = {}"
  by (simp add: dict_pairs_def)

lemma dict_pairs_Cons [simp]: "dict_pairs E ((k, v) # d) = ({k} \<times> E v) \<union> dict_pairs E d"
  by (simp add: dict_pairs_def)

lemma dict_pairs_dd_modify:
  assumes "\<And>v. E (f v) = insert x (E v)" "E dflt = {}"
  shows "dict_pairs E (dd_modify dflt f k d) = insert (k, x) (dict_pairs E d)"
  using assms by (induction dflt f k d rule: dd_modify.induct) auto

lemma keys_dd_modify:
  "map fst (dd_modify dflt f k d) = (if k \<in> fst ` set d then map fst d else map fst d @ [k])"
  by (induction dflt f k d rule: dd_modify.induct) (auto simp: image_iff)

lemma distinct_keys_dd_modify:
  "distinct (map fst d) \<Longrightarrow> distinct (map fst (dd_modify dflt f k d))"
  by (simp add: keys_dd_modify)

lemma map_of_dd_modify:
  "map_of (dd_modify dflt f k d) k' =
     (if k' = k then Some (f (case map_of d k of None \<Rightarrow> dflt | Some v \<Rightarrow> v)) else map_of d k')"
  by (induction dflt f k d rule: dd_modify.induct) auto

lemma dict_pairs_iff: "((k, x) \<in> dict_pairs E d) = (\<exists>v. (k, v) \<in> set d \<and> x \<in> E v)"
  by (induction d) auto

lemma dict_pairs_map_of:
  assumes "distinct (map fst d)"
  shows "((k, x) \<in> dict_pairs E d) = (\<exists>v. map_of d k = Some v \<and> x \<in> E v)"
  using assms by (simp add: dict_pairs_iff)

definition edge_triples :: "RepositoryGraph \<Rightarrow> (string \<times> string \<times> string) set" where
  "edge_triples g = (\<lambda>(p, c, m). (p, m, c)) ` dict_pairs (dict_pairs set) (edges g)"

lemma set_iter_edges_inner:
  "set (concat (map (\<lambda>(target_actor, edge_msgs).
       map (\<lambda>edge_msg. (p, edge_msg, target_actor)) edge_msgs) inner))
   = (\<lambda>(c, m). (p, m, c)) ` dict_pairs set inner"
  by (induction inner) (auto simp: image_Un)

lemma set_iter_edges: "set (iter_edges g) = edge_triples g"
proof -
  define F :: "string \<times> (string \<times> string list) list \<Rightarrow> (string \<times> string \<times> string) list"
    where "F = (\<lambda>(source_actor, target_actors).
       concat (map (\<lambda>(target_actor, edge_msgs).
         map (\<lambda>edge_msg. (source_actor, edge_msg, target_actor)) edge_msgs)
       target_actors))"
  have F: "set (F (p, inner)) = (\<lambda>(p, c, m). (p, m, c)) ` ({p} \<times> dict_pairs set inner)"
    for p inner
  proof -
    have "(\<lambda>(c, m). (p, m, c)) ` dict_pairs set inner
        = (\<lambda>(p, c, m). (p, m, c)) ` ({p} \<times> dict_pairs set inner)"
      by force
    then show ?thesis by (simp only: F_def prod.case set_iter_edges_inner)
  qed
  have "set (concat (map F es)) = (\<lambda>(p, c, m). (p, m, c)) ` dict_pairs (dict_pairs set) es"
    for es
  proof (induction es)
    case Nil
    show ?case by simp
  next
    case (Cons e es)
    obtain p inner where e: "e = (p, inner)" by (cases e)
    have "set (concat (map F (e # es))) = set (F (p, inner)) \<union> set (concat (map F es))"
      by (simp add: e)
    then show ?case
      by (simp only: F Cons.IH e dict_pairs_Cons image_Un)
  qed
  then show ?thesis by (simp add: iter_edges_def edge_triples_def F_def)
qed

lemma edge_triples_add_edge:
  "edge_triples (add_edge g s m t) = insert (s, m, t) (edge_triples g)"
proof -
  have inner: "\<And>v. dict_pairs set (dd_modify [] (\<lambda>msgs. set_add msgs m) t v)
      = insert (t, m) (dict_pairs set v)"
    by (rule dict_pairs_dd_modify) simp_all
  have "dict_pairs (dict_pairs set) (edges (add_edge g s m t))
      = insert (s, t, m) (dict_pairs (dict_pairs set) (edges g))"
    unfolding add_edge_def
    by (simp add: dict_pairs_dd_modify [where E = "dict_pairs set" and x = "(t, m)"] inner)
  then show ?thesis by (simp add: edge_triples_def)
qed

section \<open>The built graph\<close>

lemma construct_chain_actors: "construct_graph_from_actors chain_actors = chain_graph"
  by code_simp

lemma construct_fork_actors: "construct_graph_from_actors fork_actors = fork_graph"
  by code_simp

lemma dict_pairs_table_add:
  "dict_pairs set (table_add actor_name msgs table)
     = dict_pairs set table \<union> (\<lambda>m. (m, actor_name)) ` set msgs"
  unfolding table_add_def
proof (induction msgs arbitrary: table)
  case Nil
  show ?case by simp
next
  case (Cons m msgs)
  have "dict_pairs set (dd_modify [] (\<lambda>names. set_add names actor_name) m table)
      = insert (m, actor_name) (dict_pairs set table)"
    by (rule dict_pairs_dd_modify) simp_all
  with Cons.IH show ?case by simp
qed

lemma distinct_keys_table_add:
  "distinct (map fst table) \<Longrightarrow> distinct (map fst (table_add actor_name msgs table))"
  unfolding table_add_def
  by (induction msgs arbitrary: table) (simp_all add: distinct_keys_dd_modify)

definition produced_pairs :: "actor_definition list \<Rightarrow> (string \<times> string) set" where
  "produced_pairs ds = (\<Union>d \<in> set ds. (\<lambda>m. (m, class_name d)) ` set (produces d))"

definition consumed_pairs :: "actor_definition list \<Rightarrow> (string \<times> string) set" where
  "consumed_pairs ds = (\<Union>d \<in> set ds. (\<lambda>m. (m, class_name d)) ` set (consumes d))"

lemma build_tables_fold:
  assumes "fold (\<lambda>actor_def (producers_table, consumers_table).
             (table_add (class_name actor_def) (produces actor_def) producers_table,
              table_add (class_name actor_def) (consumes actor_def) consumers_table))
       ds (pt0, ct0) = (pt, ct)"
  shows "dict_pairs set pt = dict_pairs set pt0 \<union> produced_pairs ds
    \<and> dict_pairs set ct = dict_pairs set ct0 \<union> consumed_pairs ds
    \<and> (distinct (map fst pt0) \<longrightarrow> distinct (map fst pt))
    \<and> (distinct (map fst ct0) \<longrightarrow> distinct (map fst ct))"
  using assms
proof (induction ds arbitrary: pt0 ct0)
  case Nil
  then show ?case by (simp add: produced_pairs_def consumed_pairs_def)
next
  case (Cons d ds)
  from Cons.prems have "fold (\<lambda>actor_def (producers_table, consumers_table).
             (table_add (class_name actor_def) (produces actor_def) producers_table,
              table_add (class_name actor_def) (consumes actor_def) consumers_table))
       ds (table_add (class_name d) (produces d) pt0, table_add (class_name d) (consumes d) ct0)
       = (pt, ct)"
    by simp
  from Cons.IH [OF this] show ?case
    by (auto simp: dict_pairs_table_add distinct_keys_table_add produced_pairs_def
        consumed_pairs_def)
qed

lemma build_tables_pairs:
  assumes "build_tables ds = (pt, ct)"
  shows "dict_pairs set pt = produced_pairs ds" "dict_pairs set ct = consumed_pairs ds"
    "distinct (map fst pt)" "distinct (map fst ct)"
  using build_tables_fold [OF assms [unfolded build_tables_def]] by simp_all

lemma set_dd_get:
  assumes "distinct (map fst d)"
  shows "set (fst (dd_get [] d k)) = {x. (k, x) \<in> dict_pairs set d}"
proof (cases "map_of d k")
  case None
  then show ?thesis by (simp add: dd_get_def dict_pairs_map_of [OF assms])
next
  case (Some v)
  then show ?thesis by (simp add: dd_get_def dict_pairs_map_of [OF assms])
qed

lemma edge_triples_fold_add_edge:
  "edge_triples (fold (\<lambda>(consumer, producer) g. add_edge g producer msg_type consumer) xs g)
     = edge_triples g \<union> (\<lambda>(c, p). (p, msg_type, c)) ` set xs"
  by (induction xs arbitrary: g) (auto simp: edge_triples_add_edge)

lemma edge_triples_add_spoken:
  assumes "distinct (map fst pt)" "distinct (map fst ct)"
  shows "edge_triples (add_spoken pt ct m g)
     = edge_triples g \<union> {(p, m', c). m' = m \<and> (m, p) \<in> dict_pairs set pt
         \<and> (m, c) \<in> dict_pairs set ct}"
  unfolding add_spoken_def Let_def edge_triples_fold_add_edge
  using set_dd_get [OF assms(1), of m] set_dd_get [OF assms(2), of m]
  by auto

lemma edge_triples_fold_add_spoken:
  assumes "distinct (map fst pt)" "distinct (map fst ct)"
  shows "edge_triples (fold (add_spoken pt ct) ms g)
     = edge_triples g \<union> {(p, m, c). m \<in> set ms \<and> (m, p) \<in> dict_pairs set pt
         \<and> (m, c) \<in> dict_pairs set ct}"
  by (induction ms arbitrary: g) (auto simp: edge_triples_add_spoken [OF assms])

lemma edge_triples_new_graph [simp]: "edge_triples new_graph = {}"
  by (simp add: edge_triples_def new_graph_def)

lemma dict_pairs_key: "(k, x) \<in> dict_pairs E d \<Longrightarrow> k \<in> fst ` set d"
  by (auto simp: dict_pairs_iff intro: rev_image_eqI)

lemma edge_triples_construct:
  "edge_triples (construct_graph_from_actors ds)
     = {(p, m, c). (m, p) \<in> produced_pairs ds \<and> (m, c) \<in> consumed_pairs ds}"
proof -
  obtain pt ct where t: "build_tables ds = (pt, ct)" by (cases "build_tables ds")
  note b = build_tables_pairs [OF t]
  have "edge_triples (construct_graph_from_actors ds)
      = {(p, m, c). m \<in> set (spoken_messages pt ct) \<and> (m, p) \<in> dict_pairs set pt
         \<and> (m, c) \<in> dict_pairs set ct}"
    by (simp add: construct_graph_from_actors_def t edge_triples_fold_add_spoken [OF b(3,4)])
  also have "\<dots> = {(p, m, c). (m, p) \<in> dict_pairs set pt \<and> (m, c) \<in> dict_pairs set ct}"
    by (auto simp: spoken_messages_def dest: dict_pairs_key)
  finally show ?thesis by (simp only: b)
qed

lemma find_distinct_key:
  assumes "distinct (map f xs)"
  shows "(find (\<lambda>x. f x = k) xs = Some x) = (x \<in> set xs \<and> f x = k)"
  using assms by (induction xs) (auto simp: image_iff)

text \<open>
  Claim C1. For actor definitions with pairwise different names, the built graph has
  the edge \<open>(p, m, c)\<close> exactly when the definition named \<open>p\<close> produces \<open>m\<close> and the
  definition named \<open>c\<close> consumes \<open>m\<close>: one edge for every pair of a producer and a
  consumer of every message type.
\<close>

theorem construct_graph_edge_iff:
  assumes "distinct (map class_name actor_definitions)"
  shows "((p, m, c) \<in> set (iter_edges (construct_graph_from_actors actor_definitions)))
     = (\<exists>producer consumer.
          find (\<lambda>d. class_name d = p) actor_definitions = Some producer
          \<and> find (\<lambda>d. class_name d = c) actor_definitions = Some consumer
          \<and> m \<in> set (produces producer) \<and> m \<in> set (consumes consumer))"
  unfolding set_iter_edges edge_triples_construct find_distinct_key [OF assms]
  by (auto simp: produced_pairs_def consumed_pairs_def)

theorem construct_graph_edge_iff_witness:
  "distinct (map class_name chain_actors)
   \<and> (''A'', ''X'', ''B'') \<in> set (iter_edges (construct_graph_from_actors chain_actors))
   \<and> (''A'', ''Y'', ''C'') \<notin> set (iter_edges (construct_graph_from_actors chain_actors))"
  using construct_graph_edge_iff [of chain_actors "''A''" "''X''" "''B''"]
    construct_graph_edge_iff [of chain_actors "''A''" "''Y''" "''C''"]
  by (simp add: chain_actors_def)

text \<open>
  Claim C5, as the spec states it: of two definitions with the same name only the
  last one counts. The tables map a message type to a set of names, so nothing is
  ever replaced: here the first definition named \<open>A\<close> still produces \<open>X\<close> for the
  second one, and the graph is not the graph of the second definition alone.
\<close>

theorem duplicate_names_not_overwritten:
  "iter_edges (construct_graph_from_actors twice_named) = [(''A'', ''X'', ''A'')]
   \<and> iter_edges (construct_graph_from_actors [last twice_named]) = []
   \<and> construct_graph_from_actors twice_named \<noteq> construct_graph_from_actors [last twice_named]"
  by code_simp

text \<open>
  Claim C5, amended. Definitions that share a name are merged: the graph has the edge
  \<open>(p, m, c)\<close> exactly when some definition named \<open>p\<close> produces \<open>m\<close> and some
  definition named \<open>c\<close> consumes \<open>m\<close>. The function is total, so no error is raised.
\<close>

theorem duplicate_names_merge:
  "((p, m, c) \<in> set (iter_edges (construct_graph_from_actors actor_definitions)))
     = ((\<exists>d \<in> set actor_definitions. class_name d = p \<and> m \<in> set (produces d))
        \<and> (\<exists>d \<in> set actor_definitions. class_name d = c \<and> m \<in> set (consumes d)))"
  unfolding set_iter_edges edge_triples_construct
  by (auto simp: produced_pairs_def consumed_pairs_def)

section \<open>Seed classification\<close>

lemma collect_inner:
  assumes "fold (\<lambda>(target_actor, msgs) (forward_actors, backward_actors).
         if msg_type \<in> set msgs
         then (set_add forward_actors target_actor, set_add backward_actors source_actor)
         else (forward_actors, backward_actors))
       inner (fs, bs) = (fs', bs')"
  shows "set fs' = set fs \<union> {c. (c, msg_type) \<in> dict_pairs set inner}
    \<and> set bs' = set bs \<union> {p. p = source_actor \<and> (\<exists>c. (c, msg_type) \<in> dict_pairs set inner)}
    \<and> (distinct fs \<longrightarrow> distinct fs') \<and> (distinct bs \<longrightarrow> distinct bs')"
  using assms
proof (induction inner arbitrary: fs bs)
  case Nil
  then show ?case by simp
next
  case (Cons e inner)
  obtain c msgs where e: "e = (c, msgs)" by (cases e)
  show ?case
  proof (cases "msg_type \<in> set msgs")
    case True
    with Cons.prems have "fold (\<lambda>(target_actor, msgs) (forward_actors, backward_actors).
         if msg_type \<in> set msgs
         then (set_add forward_actors target_actor, set_add backward_actors source_actor)
         else (forward_actors, backward_actors))
       inner (set_add fs c, set_add bs source_actor) = (fs', bs')"
      by (simp add: e)
    from Cons.IH [OF this] True show ?thesis
      by (auto simp: e set_add_distinct)
  next
    case False
    with Cons.prems have "fold (\<lambda>(target_actor, msgs) (forward_actors, backward_actors).
         if msg_type \<in> set msgs
         then (set_add forward_actors target_actor, set_add backward_actors source_actor)
         else (forward_actors, backward_actors))
       inner (fs, bs) = (fs', bs')"
      by (simp add: e)
    from Cons.IH [OF this] False show ?thesis
      by (auto simp: e)
  qed
qed

lemma edge_triples_iff:
  "((p, m, c) \<in> edge_triples g) = ((p, c, m) \<in> dict_pairs (dict_pairs set) (edges g))"
  unfolding edge_triples_def by force

lemma collect_for_message_sets:
  assumes "collect_for_message g msg_type (fs, bs) = (fs', bs')"
  shows "set fs' = set fs \<union> {c. \<exists>p. (p, msg_type, c) \<in> edge_triples g}
    \<and> set bs' = set bs \<union> {p. \<exists>c. (p, msg_type, c) \<in> edge_triples g}
    \<and> (distinct fs \<longrightarrow> distinct fs') \<and> (distinct bs \<longrightarrow> distinct bs')"
proof -
  have "fold (\<lambda>(source_actor, target_actors).
       fold (\<lambda>(target_actor, msgs) (forward_actors, backward_actors).
         if msg_type \<in> set msgs
         then (set_add forward_actors target_actor, set_add backward_actors source_actor)
         else (forward_actors, backward_actors))
       target_actors) es (fs, bs) = (fs', bs') \<Longrightarrow>
     set fs' = set fs \<union> {c. \<exists>p. (p, c, msg_type) \<in> dict_pairs (dict_pairs set) es}
     \<and> set bs' = set bs \<union> {p. \<exists>c. (p, c, msg_type) \<in> dict_pairs (dict_pairs set) es}
     \<and> (distinct fs \<longrightarrow> distinct fs') \<and> (distinct bs \<longrightarrow> distinct bs')" for es
  proof (induction es arbitrary: fs bs)
    case Nil
    then show ?case by simp
  next
    case (Cons e es)
    obtain p inner where e: "e = (p, inner)" by (cases e)
    obtain fs1 bs1 where 1: "fold (\<lambda>(target_actor, msgs) (forward_actors, backward_actors).
         if msg_type \<in> set msgs
         then (set_add forward_actors target_actor, set_add backward_actors p)
         else (forward_actors, backward_actors))
       inner (fs, bs) = (fs1, bs1)"
      by (rule prod.exhaust)
    with Cons.prems have "fold (\<lambda>(source_actor, target_actors).
       fold (\<lambda>(target_actor, msgs) (forward_actors, backward_actors).
         if msg_type \<in> set msgs
         then (set_add forward_actors target_actor, set_add backward_actors source_actor)
         else (forward_actors, backward_actors))
       target_actors) es (fs1, bs1) = (fs', bs')"
      by (simp add: e)
    from Cons.IH [OF this] collect_inner [OF 1] show ?case
      by (auto simp: e)
  qed
  from this [of "edges g"] assms show ?thesis
    by (simp add: collect_for_message_def edge_triples_iff)
qed

definition named_seeds :: "RepositoryGraph \<Rightarrow> string list \<Rightarrow> string set" where
  "named_seeds g leapp_entities = {e \<in> set leapp_entities. e \<in> set (actors g)}"

definition message_targets :: "RepositoryGraph \<Rightarrow> string list \<Rightarrow> string set" where
  "message_targets g leapp_entities =
     {c. \<exists>e \<in> set leapp_entities. e \<notin> set (actors g) \<and> (\<exists>p. (p, e, c) \<in> edge_triples g)}"

definition message_sources :: "RepositoryGraph \<Rightarrow> string list \<Rightarrow> string set" where
  "message_sources g leapp_entities =
     {p. \<exists>e \<in> set leapp_entities. e \<notin> set (actors g) \<and> (\<exists>c. (p, e, c) \<in> edge_triples g)}"

lemma collect_fold:
  assumes "fold (\<lambda>leapp_entity (forward_actors, backward_actors).
       if leapp_entity \<in> set (actors g)
       then (set_add forward_actors leapp_entity, set_add backward_actors leapp_entity)
       else collect_for_message g leapp_entity (forward_actors, backward_actors))
     es (fs, bs) = (fs', bs')"
  shows "set fs' = set fs \<union> named_seeds g es \<union> message_targets g es
    \<and> set bs' = set bs \<union> named_seeds g es \<union> message_sources g es
    \<and> (distinct fs \<longrightarrow> distinct fs') \<and> (distinct bs \<longrightarrow> distinct bs')"
  using assms
proof (induction es arbitrary: fs bs)
  case Nil
  then show ?case by (simp add: named_seeds_def message_targets_def message_sources_def)
next
  case (Cons e es)
  show ?case
  proof (cases "e \<in> set (actors g)")
    case True
    with Cons.prems have "fold (\<lambda>leapp_entity (forward_actors, backward_actors).
       if leapp_entity \<in> set (actors g)
       then (set_add forward_actors leapp_entity, set_add backward_actors leapp_entity)
       else collect_for_message g leapp_entity (forward_actors, backward_actors))
     es (set_add fs e, set_add bs e) = (fs', bs')"
      by simp
    from Cons.IH [OF this] True show ?thesis
      by (auto simp: named_seeds_def message_targets_def message_sources_def set_add_distinct)
  next
    case False
    obtain fs1 bs1 where 1: "collect_for_message g e (fs, bs) = (fs1, bs1)"
      by (rule prod.exhaust)
    with False Cons.prems have "fold (\<lambda>leapp_entity (forward_actors, backward_actors).
       if leapp_entity \<in> set (actors g)
       then (set_add forward_actors leapp_entity, set_add backward_actors leapp_entity)
       else collect_for_message g leapp_entity (forward_actors, backward_actors))
     es (fs1, bs1) = (fs', bs')"
      by simp
    from Cons.IH [OF this] collect_for_message_sets [OF 1] False show ?thesis
      by (auto simp: named_seeds_def message_targets_def message_sources_def)
  qed
qed

lemma collect_actors_for_entities_sets:
  assumes "collect_actors_for_entities g es = (fs, bs)"
  shows "set fs = named_seeds g es \<union> message_targets g es"
    and "set bs = named_seeds g es \<union> message_sources g es"
    and "distinct fs" and "distinct bs"
  using collect_fold [OF assms [unfolded collect_actors_for_entities_def]] by simp_all

text \<open>
  Claim C4. An entity that is an actor of the graph is a forward seed and a backward
  seed. Any other entity \<open>e\<close> is read as a message type: every edge \<open>(p, c)\<close> whose
  messages contain \<open>e\<close> makes \<open>c\<close> a forward seed and \<open>p\<close> a backward seed. There are
  no other seeds, so an entity that is neither an actor nor a message of an edge
  contributes none.
\<close>

theorem collect_actors_for_entities_seeds:
  "set (fst (collect_actors_for_entities g leapp_entities))
     = {e \<in> set leapp_entities. e \<in> set (actors g)}
       \<union> {c. \<exists>e \<in> set leapp_entities. e \<notin> set (actors g)
              \<and> (\<exists>p. (p, e, c) \<in> set (iter_edges g))}
   \<and> set (snd (collect_actors_for_entities g leapp_entities))
     = {e \<in> set leapp_entities. e \<in> set (actors g)}
       \<union> {p. \<exists>e \<in> set leapp_entities. e \<notin> set (actors g)
              \<and> (\<exists>c. (p, e, c) \<in> set (iter_edges g))}"
proof -
  obtain fs bs where c: "collect_actors_for_entities g leapp_entities = (fs, bs)"
    by (rule prod.exhaust)
  from collect_actors_for_entities_sets(1,2) [OF c] show ?thesis
    by (simp add: c set_iter_edges named_seeds_def message_targets_def message_sources_def)
qed

section \<open>Entities the graph does not know\<close>

lemma copy_seen_edges_Nil: "copy_seen_edges g [] = new_graph"
proof -
  have "fold (\<lambda>(source_actor, target_actors) resulting_graph. resulting_graph) es rg = rg"
    for es :: "(string \<times> (string \<times> string list) list) list" and rg :: RepositoryGraph
    by (induction es) auto
  then show ?thesis by (simp add: copy_seen_edges_def new_graph_def)
qed

lemma scans_Nil:
  "forward_scan g [] = ([], g)" "backward_scan g [] = ([], g)" "dfs_graph_scan g [] = ([], g)"
  by (simp_all add: forward_scan_def backward_scan_def dfs_graph_scan_def)

text \<open>
  Claim C10. When no entity is an actor of the graph or a message of one of its edges
  (the empty entity list included), \<^verbatim>\<open>make_subgraph_related_to\<close> returns the empty
  graph, in tight and in loose mode.
\<close>

theorem unrelated_entities_empty_subgraph:
  assumes "\<forall>e \<in> set leapp_entities.
     e \<notin> set (actors g) \<and> e \<notin> (\<lambda>(p, m, c). m) ` set (iter_edges g)"
  shows "fst (make_subgraph_related_to g leapp_entities tight) = new_graph"
proof -
  obtain fs bs where c: "collect_actors_for_entities g leapp_entities = (fs, bs)"
    by (rule prod.exhaust)
  from assms have "named_seeds g leapp_entities = {}" "message_targets g leapp_entities = {}"
    "message_sources g leapp_entities = {}"
    unfolding named_seeds_def message_targets_def message_sources_def set_iter_edges [symmetric]
    by force+
  with collect_actors_for_entities_sets(1,2) [OF c] have "fs = []" "bs = []"
    by simp_all
  then show ?thesis
    by (simp add: make_subgraph_related_to_def seen_actors_of_def c scans_Nil set_update_def
        copy_seen_edges_Nil)
qed

theorem unrelated_entities_empty_subgraph_witness:
  "''Q'' \<notin> set (actors chain_graph) \<and> ''Q'' \<notin> (\<lambda>(p, m, c). m) ` set (iter_edges chain_graph)
   \<and> fst (make_subgraph_related_to chain_graph [''Q''] True) = new_graph
   \<and> fst (make_subgraph_related_to chain_graph [''Q''] False) = new_graph
   \<and> fst (make_subgraph_related_to chain_graph [] True) = new_graph
   \<and> fst (make_subgraph_related_to chain_graph [] False) = new_graph"
  using unrelated_entities_empty_subgraph [of "[''Q'']" chain_graph True]
    unrelated_entities_empty_subgraph [of "[''Q'']" chain_graph False]
    unrelated_entities_empty_subgraph [of "[]" chain_graph True]
    unrelated_entities_empty_subgraph [of "[]" chain_graph False]
  by (simp add: chain_graph_def iter_edges_def)

section \<open>What the scans compute\<close>

text \<open>What a scan reads at an actor: the keys of \<^verbatim>\<open>self.edges[actor]\<close> and the
  members of \<^verbatim>\<open>self.reverse_edges[actor]\<close>; a missing key reads as empty.\<close>

definition targets_of :: "RepositoryGraph \<Rightarrow> string \<Rightarrow> string set" where
  "targets_of g actor =
     (case map_of (edges g) actor of None \<Rightarrow> {} | Some target_actors \<Rightarrow> fst ` set target_actors)"

definition sources_of :: "RepositoryGraph \<Rightarrow> string \<Rightarrow> string set" where
  "sources_of g actor =
     (case map_of (reverse_edges g) actor of None \<Rightarrow> {} | Some source_actors \<Rightarrow> set source_actors)"

definition forward_rel :: "RepositoryGraph \<Rightarrow> (string \<times> string) set" where
  "forward_rel g = {(a, b). b \<in> targets_of g a}"

definition backward_rel :: "RepositoryGraph \<Rightarrow> (string \<times> string) set" where
  "backward_rel g = {(a, b). b \<in> sources_of g a}"

text \<open>What the reads of a scan do to the graph: the actors stay, and the two
  dictionaries gain keys with empty values at the end.\<close>

definition extended_by_empty :: "('k \<times> 'v list) list \<Rightarrow> ('k \<times> 'v list) list \<Rightarrow> bool" where
  "extended_by_empty d d' =
     (\<exists>ks. d' = d @ map (\<lambda>k. (k, [])) ks \<and> distinct ks \<and> set ks \<inter> fst ` set d = {})"

definition scan_frame :: "RepositoryGraph \<Rightarrow> RepositoryGraph \<Rightarrow> bool" where
  "scan_frame g g' =
     (actors g' = actors g \<and> extended_by_empty (edges g) (edges g')
      \<and> extended_by_empty (reverse_edges g) (reverse_edges g'))"

lemma extended_by_empty_refl [simp]: "extended_by_empty d d"
  unfolding extended_by_empty_def by (rule exI [of _ "[]"]) simp

lemma extended_by_empty_trans:
  assumes "extended_by_empty d1 d2" "extended_by_empty d2 d3"
  shows "extended_by_empty d1 d3"
proof -
  from assms(1) obtain ks where
    1: "d2 = d1 @ map (\<lambda>k. (k, [])) ks" "distinct ks" "set ks \<inter> fst ` set d1 = {}"
    unfolding extended_by_empty_def by blast
  from assms(2) obtain ls where
    2: "d3 = d2 @ map (\<lambda>k. (k, [])) ls" "distinct ls" "set ls \<inter> fst ` set d2 = {}"
    unfolding extended_by_empty_def by blast
  have "set ls \<inter> set ks = {}"
    using 2(3) unfolding 1(1) by (auto simp: image_Un image_image)
  moreover have "set ls \<inter> fst ` set d1 = {}"
    using 2(3) unfolding 1(1) by (auto simp: image_Un)
  ultimately show ?thesis
    unfolding extended_by_empty_def
    using 1 2 by (intro exI [of _ "ks @ ls"]) auto
qed

lemma extended_by_empty_dd_get:
  assumes "dd_get [] d k = (v, d')"
  shows "extended_by_empty d d'"
proof -
  from dd_get_cases [OF assms] show ?thesis
  proof
    assume "map_of d k = Some v \<and> d' = d"
    then show ?thesis by simp
  next
    assume a: "map_of d k = None \<and> v = [] \<and> d' = d @ [(k, [])]"
    then have "k \<notin> fst ` set d" by (simp add: map_of_eq_None_iff)
    with a show ?thesis
      unfolding extended_by_empty_def by (intro exI [of _ "[k]"]) simp
  qed
qed

lemma extended_by_empty_map_of:
  assumes "extended_by_empty d d'"
  shows "(case map_of d' k of None \<Rightarrow> [] | Some v \<Rightarrow> v) = (case map_of d k of None \<Rightarrow> [] | Some v \<Rightarrow> v)"
proof -
  from assms obtain ks where
    1: "d' = d @ map (\<lambda>k. (k, [])) ks" "set ks \<inter> fst ` set d = {}"
    unfolding extended_by_empty_def by blast
  have m: "map_of (map (\<lambda>k. (k, [])) ks) k = (if k \<in> set ks then Some [] else None)"
    by (induction ks) auto
  show ?thesis
    unfolding 1(1) map_of_append by (auto simp: m map_add_def split: option.splits)
qed

lemma extended_by_empty_map_of_Some:
  assumes "extended_by_empty d d'" "map_of d k = Some v"
  shows "map_of d' k = Some v"
proof -
  from assms obtain ks where
    1: "d' = d @ map (\<lambda>k. (k, [])) ks" "set ks \<inter> fst ` set d = {}"
    unfolding extended_by_empty_def by blast
  from assms(2) have "k \<in> fst ` set d" by (metis map_of_eq_None_iff option.distinct(1))
  with 1(2) have "k \<notin> set ks" by auto
  then have "map_of (map (\<lambda>k. (k, [])) ks) k = None"
    by (simp add: map_of_eq_None_iff image_image)
  with assms(2) show ?thesis
    unfolding 1(1) map_of_append by (simp add: map_add_def)
qed

lemma extended_by_empty_distinct:
  assumes "extended_by_empty d d'" "distinct (map fst d)"
  shows "distinct (map fst d')"
proof -
  from assms obtain ks where
    1: "d' = d @ map (\<lambda>k. (k, [])) ks" "distinct ks" "set ks \<inter> fst ` set d = {}"
    unfolding extended_by_empty_def by blast
  have "map fst d' = map fst d @ ks"
    unfolding 1(1) by (simp add: comp_def)
  with 1 assms(2) show ?thesis by auto
qed

lemma extended_by_empty_dict_pairs:
  assumes "extended_by_empty d d'" "E [] = {}"
  shows "dict_pairs E d' = dict_pairs E d"
proof -
  from assms obtain ks where 1: "d' = d @ map (\<lambda>k. (k, [])) ks"
    unfolding extended_by_empty_def by blast
  show ?thesis unfolding 1 by (simp add: dict_pairs_def assms(2))
qed

lemma extended_by_empty_set:
  assumes "extended_by_empty d d'"
  shows "set d \<subseteq> set d'" "set d' \<subseteq> set d \<union> {e. snd e = []}"
  using assms unfolding extended_by_empty_def by auto

lemma scan_frame_refl [simp]: "scan_frame g g"
  by (simp add: scan_frame_def)

lemma scan_frame_trans: "scan_frame g1 g2 \<Longrightarrow> scan_frame g2 g3 \<Longrightarrow> scan_frame g1 g3"
  unfolding scan_frame_def by (auto intro: extended_by_empty_trans)

lemma scan_frame_targets_of:
  assumes "scan_frame g g'" shows "targets_of g' = targets_of g"
proof
  fix a
  from assms have "extended_by_empty (edges g) (edges g')" by (simp add: scan_frame_def)
  from extended_by_empty_map_of [OF this, of a] show "targets_of g' a = targets_of g a"
    unfolding targets_of_def by (auto split: option.splits)
qed

lemma scan_frame_sources_of:
  assumes "scan_frame g g'" shows "sources_of g' = sources_of g"
proof
  fix a
  from assms have "extended_by_empty (reverse_edges g) (reverse_edges g')"
    by (simp add: scan_frame_def)
  from extended_by_empty_map_of [OF this, of a] show "sources_of g' a = sources_of g a"
    unfolding sources_of_def by (auto split: option.splits)
qed

lemma scan_frame_rels:
  assumes "scan_frame g g'"
  shows "forward_rel g' = forward_rel g" "backward_rel g' = backward_rel g"
  by (simp_all add: forward_rel_def backward_rel_def scan_frame_targets_of [OF assms]
      scan_frame_sources_of [OF assms])

lemma scan_frame_edge_triples:
  assumes "scan_frame g g'" shows "edge_triples g' = edge_triples g"
proof -
  from assms have "extended_by_empty (edges g) (edges g')" by (simp add: scan_frame_def)
  from extended_by_empty_dict_pairs [OF this, of "dict_pairs set"] show ?thesis
    by (simp add: edge_triples_def)
qed


lemma rtrancl_Image_absorb:
  assumes "a \<in> V"
  shows "R\<^sup>* `` (V \<union> R `` {a}) = R\<^sup>* `` V"
proof -
  have "R\<^sup>* `` (R `` {a}) \<subseteq> R\<^sup>* `` V"
    using assms by (auto intro: converse_rtrancl_into_rtrancl)
  then show ?thesis by (auto simp: Image_Un)
qed

text \<open>One pass of an inner loop over the neighbours \<open>N\<close> of the popped actor.\<close>

definition step_ok :: "string set \<Rightarrow> scan_state \<Rightarrow> scan_state \<Rightarrow> bool" where
  "step_ok N = (\<lambda>(g, vis, wl) (g', vis', wl').
     scan_frame g g' \<and> set vis' = set vis \<union> N \<and> set wl' = set wl \<union> (N - set vis)
     \<and> (distinct vis \<longrightarrow> distinct vis'))"

lemma step_ok_follow_edges:
  "step_ok (targets_of g a) (g, vis, wl) (follow_edges a (g, vis, wl))"
proof -
  obtain tgts es where dg: "dd_get [] (edges g) a = (tgts, es)" by (rule prod.exhaust)
  obtain new where new: "visit_all (map fst tgts) (vis, wl) = (vis @ new, wl @ new)"
    "set new = set (map fst tgts) - set vis" "distinct new"
    using visit_all_new by blast
  have f: "follow_edges a (g, vis, wl) = (g\<lparr>edges := es\<rparr>, vis @ new, wl @ new)"
    by (simp add: follow_edges_def dg new)
  have t: "targets_of g a = set (map fst tgts)"
    using dd_get_cases [OF dg] by (force simp: targets_of_def)
  have "scan_frame g (g\<lparr>edges := es\<rparr>)"
    using extended_by_empty_dd_get [OF dg] by (simp add: scan_frame_def)
  with new show ?thesis
    unfolding f t step_ok_def by auto
qed

lemma step_ok_follow_reverse_edges:
  "step_ok (sources_of g a) (g, vis, wl) (follow_reverse_edges a (g, vis, wl))"
proof -
  obtain srcs es where dg: "dd_get [] (reverse_edges g) a = (srcs, es)" by (rule prod.exhaust)
  obtain new where new: "visit_all srcs (vis, wl) = (vis @ new, wl @ new)"
    "set new = set srcs - set vis" "distinct new"
    using visit_all_new by blast
  have f: "follow_reverse_edges a (g, vis, wl) = (g\<lparr>reverse_edges := es\<rparr>, vis @ new, wl @ new)"
    by (simp add: follow_reverse_edges_def dg new)
  have t: "sources_of g a = set srcs"
    using dd_get_cases [OF dg] by (auto simp: sources_of_def)
  have "scan_frame g (g\<lparr>reverse_edges := es\<rparr>)"
    using extended_by_empty_dd_get [OF dg] by (simp add: scan_frame_def)
  with new show ?thesis
    unfolding f t step_ok_def by auto
qed

lemma step_ok_both:
  "step_ok (targets_of g a \<union> sources_of g a) (g, vis, wl)
     (follow_reverse_edges a (follow_edges a (g, vis, wl)))"
proof -
  obtain g1 v1 w1 where 1: "follow_edges a (g, vis, wl) = (g1, v1, w1)"
    by (rule prod_cases3)
  obtain g2 v2 w2 where 2: "follow_reverse_edges a (g1, v1, w1) = (g2, v2, w2)"
    by (rule prod_cases3)
  from step_ok_follow_edges [of g a vis wl] have a: "scan_frame g g1"
    "set v1 = set vis \<union> targets_of g a" "set w1 = set wl \<union> (targets_of g a - set vis)"
    "distinct vis \<longrightarrow> distinct v1"
    unfolding 1 step_ok_def by simp_all
  from step_ok_follow_reverse_edges [of g1 a v1 w1] have b: "scan_frame g1 g2"
    "set v2 = set v1 \<union> sources_of g1 a" "set w2 = set w1 \<union> (sources_of g1 a - set v1)"
    "distinct v1 \<longrightarrow> distinct v2"
    unfolding 2 step_ok_def by simp_all
  note s = scan_frame_sources_of [OF a(1)]
  from a b scan_frame_trans [OF a(1) b(1)] show ?thesis
    unfolding 1 2 step_ok_def s by auto
qed

lemma step_invariant:
  assumes "wl \<noteq> []"
    and "step_ok (R `` {last wl}) (g, vis, butlast wl) (g', vis', wl')"
    and "set wl \<subseteq> set vis"
    and "\<forall>a \<in> set vis - set wl. R `` {a} \<subseteq> set vis"
  shows "set wl' \<subseteq> set vis'" and "\<forall>a \<in> set vis' - set wl'. R `` {a} \<subseteq> set vis'"
    and "R\<^sup>* `` set vis' = R\<^sup>* `` set vis"
proof -
  let ?a = "last wl"
  from assms(2) have s: "set vis' = set vis \<union> R `` {?a}"
    "set wl' = set (butlast wl) \<union> (R `` {?a} - set vis)"
    unfolding step_ok_def by simp_all
  from assms(1) have w: "set wl = insert ?a (set (butlast wl))"
    by (metis append_butlast_last_id list.simps(15) rotate1.simps(2) set_rotate1)
  from w assms(3) have a: "?a \<in> set vis" by auto
  from w assms(3) show "set wl' \<subseteq> set vis'" unfolding s by auto
  show "\<forall>a \<in> set vis' - set wl'. R `` {a} \<subseteq> set vis'"
  proof
    fix x assume x: "x \<in> set vis' - set wl'"
    then have xv: "x \<in> set vis" and xb: "x \<notin> set (butlast wl)" unfolding s by auto
    show "R `` {x} \<subseteq> set vis'"
    proof (cases "x = ?a")
      case True
      then show ?thesis unfolding s by auto
    next
      case False
      with xb w have "x \<notin> set wl" by auto
      with xv assms(4) have "R `` {x} \<subseteq> set vis" by auto
      then show ?thesis unfolding s by auto
    qed
  qed
  show "R\<^sup>* `` set vis' = R\<^sup>* `` set vis"
    unfolding s by (rule rtrancl_Image_absorb [OF a])
qed


lemma forward_rel_Image [simp]: "forward_rel g `` {a} = targets_of g a"
  by (auto simp: forward_rel_def)

lemma backward_rel_Image [simp]: "backward_rel g `` {a} = sources_of g a"
  by (auto simp: backward_rel_def)

lemma forward_loop_correct:
  assumes "set wl \<subseteq> set vis" "\<forall>a \<in> set vis - set wl. forward_rel g `` {a} \<subseteq> set vis"
  shows "set (fst (forward_loop g wl vis)) = (forward_rel g)\<^sup>* `` set vis
    \<and> scan_frame g (snd (forward_loop g wl vis))
    \<and> (distinct vis \<longrightarrow> distinct (fst (forward_loop g wl vis)))"
  using assms
proof (induction g wl vis rule: forward_loop.induct)
  case (1 g wl vis)
  show ?case
  proof (cases "wl = []")
    case True
    with "1.prems" have "forward_rel g `` set vis \<subseteq> set vis"
      by (auto simp: forward_rel_def backward_rel_def)
    then have "(forward_rel g)\<^sup>* `` set vis = set vis" by (rule Image_closed_trancl)
    with True show ?thesis by simp
  next
    case False
    obtain g' vis' wl' where
      f: "follow_edges (last wl) (g, vis, butlast wl) = (g', vis', wl')"
      by (rule prod_cases3)
    have ok: "step_ok (forward_rel g `` {last wl}) (g, vis, butlast wl) (g', vis', wl')"
      using step_ok_follow_edges [of g "last wl" vis "butlast wl"] unfolding f
      by (simp add: forward_rel_Image)
    note inv = step_invariant [OF False ok "1.prems"]
    from ok have fr: "scan_frame g g'" and d: "distinct vis \<longrightarrow> distinct vis'"
      by (simp_all add: step_ok_def)
    have rel: "forward_rel g' = forward_rel g"
      by (simp add: scan_frame_rels [OF fr])
    have unfold: "forward_loop g wl vis = forward_loop g' wl' vis'"
      by (subst forward_loop.simps) (simp add: False f)
    from "1.IH" [OF False f [symmetric] refl] inv(1,2)
    have "set (fst (forward_loop g' wl' vis')) = (forward_rel g)\<^sup>* `` set vis'
      \<and> scan_frame g' (snd (forward_loop g' wl' vis'))
      \<and> (distinct vis' \<longrightarrow> distinct (fst (forward_loop g' wl' vis')))"
      unfolding rel by blast
    with inv(3) fr d show ?thesis
      unfolding unfold by (auto intro: scan_frame_trans)
  qed
qed

lemma backward_loop_correct:
  assumes "set wl \<subseteq> set vis" "\<forall>a \<in> set vis - set wl. backward_rel g `` {a} \<subseteq> set vis"
  shows "set (fst (backward_loop g wl vis)) = (backward_rel g)\<^sup>* `` set vis
    \<and> scan_frame g (snd (backward_loop g wl vis))
    \<and> (distinct vis \<longrightarrow> distinct (fst (backward_loop g wl vis)))"
  using assms
proof (induction g wl vis rule: backward_loop.induct)
  case (1 g wl vis)
  show ?case
  proof (cases "wl = []")
    case True
    with "1.prems" have "backward_rel g `` set vis \<subseteq> set vis"
      by (auto simp: forward_rel_def backward_rel_def)
    then have "(backward_rel g)\<^sup>* `` set vis = set vis" by (rule Image_closed_trancl)
    with True show ?thesis by simp
  next
    case False
    obtain g' vis' wl' where
      f: "follow_reverse_edges (last wl) (g, vis, butlast wl) = (g', vis', wl')"
      by (rule prod_cases3)
    have ok: "step_ok (backward_rel g `` {last wl}) (g, vis, butlast wl) (g', vis', wl')"
      using step_ok_follow_reverse_edges [of g "last wl" vis "butlast wl"] unfolding f
      by (simp add: backward_rel_Image)
    note inv = step_invariant [OF False ok "1.prems"]
    from ok have fr: "scan_frame g g'" and d: "distinct vis \<longrightarrow> distinct vis'"
      by (simp_all add: step_ok_def)
    have rel: "backward_rel g' = backward_rel g"
      by (simp add: scan_frame_rels [OF fr])
    have unfold: "backward_loop g wl vis = backward_loop g' wl' vis'"
      by (subst backward_loop.simps) (simp add: False f)
    from "1.IH" [OF False f [symmetric] refl] inv(1,2)
    have "set (fst (backward_loop g' wl' vis')) = (backward_rel g)\<^sup>* `` set vis'
      \<and> scan_frame g' (snd (backward_loop g' wl' vis'))
      \<and> (distinct vis' \<longrightarrow> distinct (fst (backward_loop g' wl' vis')))"
      unfolding rel by blast
    with inv(3) fr d show ?thesis
      unfolding unfold by (auto intro: scan_frame_trans)
  qed
qed

lemma dfs_loop_correct:
  assumes "set wl \<subseteq> set vis" "\<forall>a \<in> set vis - set wl. (forward_rel g \<union> backward_rel g) `` {a} \<subseteq> set vis"
  shows "set (fst (dfs_loop g wl vis)) = ((forward_rel g \<union> backward_rel g))\<^sup>* `` set vis
    \<and> scan_frame g (snd (dfs_loop g wl vis))
    \<and> (distinct vis \<longrightarrow> distinct (fst (dfs_loop g wl vis)))"
  using assms
proof (induction g wl vis rule: dfs_loop.induct)
  case (1 g wl vis)
  show ?case
  proof (cases "wl = []")
    case True
    with "1.prems" have "(forward_rel g \<union> backward_rel g) `` set vis \<subseteq> set vis"
      by (auto simp: forward_rel_def backward_rel_def)
    then have "((forward_rel g \<union> backward_rel g))\<^sup>* `` set vis = set vis" by (rule Image_closed_trancl)
    with True show ?thesis by simp
  next
    case False
    obtain g' vis' wl' where
      f: "follow_reverse_edges (last wl) (follow_edges (last wl) (g, vis, butlast wl)) = (g', vis', wl')"
      by (rule prod_cases3)
    have ok: "step_ok ((forward_rel g \<union> backward_rel g) `` {last wl}) (g, vis, butlast wl) (g', vis', wl')"
      using step_ok_both [of g "last wl" vis "butlast wl"] unfolding f
      by (simp add: Un_Image)
    note inv = step_invariant [OF False ok "1.prems"]
    from ok have fr: "scan_frame g g'" and d: "distinct vis \<longrightarrow> distinct vis'"
      by (simp_all add: step_ok_def)
    have rel: "(forward_rel g' \<union> backward_rel g') = (forward_rel g \<union> backward_rel g)"
      by (simp add: scan_frame_rels [OF fr])
    have unfold: "dfs_loop g wl vis = dfs_loop g' wl' vis'"
      by (subst dfs_loop.simps) (simp add: False f)
    from "1.IH" [OF False f [symmetric] refl] inv(1,2)
    have "set (fst (dfs_loop g' wl' vis')) = ((forward_rel g \<union> backward_rel g))\<^sup>* `` set vis'
      \<and> scan_frame g' (snd (dfs_loop g' wl' vis'))
      \<and> (distinct vis' \<longrightarrow> distinct (fst (dfs_loop g' wl' vis')))"
      unfolding rel by blast
    with inv(3) fr d show ?thesis
      unfolding unfold by (auto intro: scan_frame_trans)
  qed
qed


lemma forward_scan_correct:
  "set (fst (forward_scan g seeds)) = (forward_rel g)\<^sup>* `` set seeds"
  "scan_frame g (snd (forward_scan g seeds))"
  "distinct seeds \<Longrightarrow> distinct (fst (forward_scan g seeds))"
  using forward_loop_correct [of seeds seeds g] by (simp_all add: forward_scan_def)

lemma backward_scan_correct:
  "set (fst (backward_scan g seeds)) = (backward_rel g)\<^sup>* `` set seeds"
  "scan_frame g (snd (backward_scan g seeds))"
  "distinct seeds \<Longrightarrow> distinct (fst (backward_scan g seeds))"
  using backward_loop_correct [of seeds seeds g] by (simp_all add: backward_scan_def)

lemma dfs_graph_scan_correct:
  "set (fst (dfs_graph_scan g seeds)) = (forward_rel g \<union> backward_rel g)\<^sup>* `` set seeds"
  "scan_frame g (snd (dfs_graph_scan g seeds))"
  "distinct seeds \<Longrightarrow> distinct (fst (dfs_graph_scan g seeds))"
  using dfs_loop_correct [of seeds seeds g] by (simp_all add: dfs_graph_scan_def)

lemma set_set_update [simp]: "set (set_update s other) = set s \<union> set other"
  unfolding set_update_def by (induction other arbitrary: s) auto

lemma distinct_set_update: "distinct s \<Longrightarrow> distinct (set_update s other)"
  unfolding set_update_def by (induction other arbitrary: s) (auto simp: set_add_distinct)

text \<open>The visited sets of the two modes, as reachability from the seeds.\<close>

definition tight_seen :: "RepositoryGraph \<Rightarrow> string list \<Rightarrow> string set" where
  "tight_seen g leapp_entities =
     (forward_rel g)\<^sup>* `` set (fst (collect_actors_for_entities g leapp_entities))
     \<union> (backward_rel g)\<^sup>* `` set (snd (collect_actors_for_entities g leapp_entities))"

definition loose_seen :: "RepositoryGraph \<Rightarrow> string list \<Rightarrow> string set" where
  "loose_seen g leapp_entities =
     (forward_rel g \<union> backward_rel g)\<^sup>* ``
       (set (fst (collect_actors_for_entities g leapp_entities))
        \<union> set (snd (collect_actors_for_entities g leapp_entities)))"

lemma seen_actors_of_correct:
  "set (fst (seen_actors_of g es tight)) = (if tight then tight_seen g es else loose_seen g es)"
  "scan_frame g (snd (seen_actors_of g es tight))"
  "distinct (fst (seen_actors_of g es tight))"
proof -
  obtain fs bs where c: "collect_actors_for_entities g es = (fs, bs)" by (rule prod.exhaust)
  note d = collect_actors_for_entities_sets(3,4) [OF c]
  obtain seen g1 where f: "forward_scan g fs = (seen, g1)" by (rule prod.exhaust)
  obtain seen_backward g2 where b: "backward_scan g1 bs = (seen_backward, g2)"
    by (rule prod.exhaust)
  from forward_scan_correct [where g = g and seeds = fs] d have 1: "set seen = (forward_rel g)\<^sup>* `` set fs"
    "scan_frame g g1" "distinct seen"
    by (simp_all add: f)
  from backward_scan_correct [where g = g1 and seeds = bs] have 2: "set seen_backward = (backward_rel g)\<^sup>* `` set bs"
    "scan_frame g1 g2"
    by (simp_all add: b scan_frame_rels [OF 1(2)])
  have t: "seen_actors_of g es True = (set_update seen seen_backward, g2)"
    by (simp add: seen_actors_of_def c f b)
  have l: "seen_actors_of g es False = dfs_graph_scan g (set_update fs bs)"
    by (simp add: seen_actors_of_def c)
  show "set (fst (seen_actors_of g es tight)) = (if tight then tight_seen g es else loose_seen g es)"
    by (cases tight) (simp_all add: t l 1 2 tight_seen_def loose_seen_def c dfs_graph_scan_correct)
  show "scan_frame g (snd (seen_actors_of g es tight))"
    by (cases tight) (simp_all add: t l scan_frame_trans [OF 1(2) 2(2)] dfs_graph_scan_correct)
  show "distinct (fst (seen_actors_of g es tight))"
    by (cases tight)
      (simp_all add: t l 1 d distinct_set_update dfs_graph_scan_correct)
qed

lemma tight_seen_subset_loose_seen: "tight_seen g es \<subseteq> loose_seen g es"
proof -
  have "(forward_rel g)\<^sup>* \<subseteq> (forward_rel g \<union> backward_rel g)\<^sup>*"
    "(backward_rel g)\<^sup>* \<subseteq> (forward_rel g \<union> backward_rel g)\<^sup>*"
    by (auto intro: rtrancl_mono [THEN subsetD])
  then show ?thesis
    unfolding tight_seen_def loose_seen_def by blast
qed

lemma actors_copy_seen_edges [simp]: "actors (copy_seen_edges g seen) = seen"
  by (simp add: copy_seen_edges_def)

lemma make_subgraph_related_to_eq:
  "make_subgraph_related_to g es tight =
     (copy_seen_edges (snd (seen_actors_of g es tight)) (fst (seen_actors_of g es tight)),
      snd (seen_actors_of g es tight))"
  by (simp add: make_subgraph_related_to_def split: prod.splits)

text \<open>
  Claim C3. For every graph and every list of entities, the actors of the subgraph
  extracted in loose mode include the actors of the subgraph extracted in tight mode.
\<close>

theorem loose_contains_tight:
  "set (actors (fst (make_subgraph_related_to g leapp_entities True)))
     \<subseteq> set (actors (fst (make_subgraph_related_to g leapp_entities False)))"
  using tight_seen_subset_loose_seen [of g leapp_entities]
  by (simp add: make_subgraph_related_to_eq seen_actors_of_correct)

section \<open>The extracted subgraph\<close>

text \<open>\<open>edge_msgs g p c\<close> is the label set stored for the edge from \<open>p\<close> to \<open>c\<close>, read
  without creating anything: \<^verbatim>\<open>g.edges[p][c]\<close> when both keys are there.\<close>

definition edge_msgs :: "RepositoryGraph \<Rightarrow> string \<Rightarrow> string \<Rightarrow> string list option" where
  "edge_msgs g source_actor target_actor =
     (case map_of (edges g) source_actor of
        None \<Rightarrow> None
      | Some target_actors \<Rightarrow> map_of target_actors target_actor)"

text \<open>What every Python value of these types satisfies: the keys of a dictionary are
  pairwise different and a set has no repetitions.\<close>

definition well_formed :: "RepositoryGraph \<Rightarrow> bool" where
  "well_formed g =
     (distinct (map fst (edges g))
      \<and> (\<forall>e \<in> set (edges g). distinct (map fst (snd e)) \<and> (\<forall>t \<in> set (snd e). distinct (snd t)))
      \<and> distinct (map fst (reverse_edges g))
      \<and> (\<forall>e \<in> set (reverse_edges g). distinct (snd e))
      \<and> distinct (actors g))"

text \<open>The loops of the second half of \<^verbatim>\<open>make_subgraph_related_to\<close>, named: the two
  assignments, the inner loop and the outer loop.\<close>

definition copy_edge :: "string \<Rightarrow> string \<Rightarrow> string list \<Rightarrow> RepositoryGraph \<Rightarrow> RepositoryGraph" where
  "copy_edge source_actor target_actor msgs resulting_graph =
     resulting_graph
       \<lparr>edges := dd_modify [] (dict_set target_actor msgs) source_actor (edges resulting_graph),
        reverse_edges := dd_modify [] (\<lambda>srcs. set_add srcs source_actor) target_actor
                           (reverse_edges resulting_graph)\<rparr>"

definition copy_targets :: "string list \<Rightarrow> string \<Rightarrow> (string \<times> string list) list
    \<Rightarrow> RepositoryGraph \<Rightarrow> RepositoryGraph" where
  "copy_targets seen_actors source_actor target_actors =
     fold (\<lambda>(target_actor, msgs) resulting_graph.
             if target_actor \<notin> set seen_actors then resulting_graph
             else copy_edge source_actor target_actor msgs resulting_graph)
       target_actors"

definition copy_sources :: "string list \<Rightarrow> (string \<times> (string \<times> string list) list) list
    \<Rightarrow> RepositoryGraph \<Rightarrow> RepositoryGraph" where
  "copy_sources seen_actors =
     fold (\<lambda>(source_actor, target_actors) resulting_graph.
             if source_actor \<notin> set seen_actors then resulting_graph
             else copy_targets seen_actors source_actor target_actors resulting_graph)"

lemma copy_seen_edges_alt:
  "copy_seen_edges g seen_actors = (copy_sources seen_actors (edges g) new_graph)\<lparr>actors := seen_actors\<rparr>"
  unfolding copy_seen_edges_def copy_sources_def copy_targets_def copy_edge_def ..

lemma edge_msgs_copy_edge:
  "edge_msgs (copy_edge s t msgs rg) p c = (if p = s \<and> c = t then Some msgs else edge_msgs rg p c)"
  by (auto simp: edge_msgs_def copy_edge_def map_of_dd_modify dict_set_def split: option.splits)

lemma sources_of_copy_edge:
  "sources_of (copy_edge s t msgs rg) c = (if c = t then insert s (sources_of rg c) else sources_of rg c)"
  by (auto simp: sources_of_def copy_edge_def map_of_dd_modify split: option.splits)

lemma copy_targets_Cons:
  "copy_targets seen s ((t, msgs) # ts) rg =
     copy_targets seen s ts (if t \<notin> set seen then rg else copy_edge s t msgs rg)"
  by (simp add: copy_targets_def)

lemma edge_msgs_copy_targets:
  assumes "distinct (map fst ts)"
  shows "edge_msgs (copy_targets seen s ts rg) p c =
     (if p = s \<and> c \<in> set seen \<and> c \<in> fst ` set ts then map_of ts c else edge_msgs rg p c)"
  using assms
proof (induction ts arbitrary: rg)
  case Nil
  show ?case by (simp add: copy_targets_def)
next
  case (Cons e ts)
  obtain t msgs where e: "e = (t, msgs)" by (cases e)
  from Cons.prems have d: "distinct (map fst ts)" and t: "t \<notin> fst ` set ts"
    by (simp_all add: e)
  show ?case
    unfolding e copy_targets_Cons Cons.IH [OF d]
    using t by (auto simp: edge_msgs_copy_edge)
qed

lemma sources_of_copy_targets:
  "sources_of (copy_targets seen s ts rg) c =
     sources_of rg c \<union> {p. p = s \<and> c \<in> set seen \<and> c \<in> fst ` set ts}"
proof (induction ts arbitrary: rg)
  case Nil
  show ?case by (simp add: copy_targets_def)
next
  case (Cons e ts)
  obtain t msgs where e: "e = (t, msgs)" by (cases e)
  show ?case
    unfolding e copy_targets_Cons Cons.IH
    by (auto simp: sources_of_copy_edge)
qed

definition lookup2 :: "(string \<times> (string \<times> string list) list) list \<Rightarrow> string \<Rightarrow> string
    \<Rightarrow> string list option" where
  "lookup2 es p c = (case map_of es p of None \<Rightarrow> None | Some ts \<Rightarrow> map_of ts c)"

lemma copy_sources_Cons:
  "copy_sources seen ((s, ts) # es) rg =
     copy_sources seen es (if s \<notin> set seen then rg else copy_targets seen s ts rg)"
  by (simp add: copy_sources_def)

lemma edge_msgs_copy_sources:
  assumes "distinct (map fst es)" "\<forall>e \<in> set es. distinct (map fst (snd e))"
  shows "edge_msgs (copy_sources seen es rg) p c =
     (if p \<in> set seen \<and> c \<in> set seen \<and> lookup2 es p c \<noteq> None then lookup2 es p c
      else edge_msgs rg p c)"
  using assms
proof (induction es arbitrary: rg)
  case Nil
  show ?case by (simp add: copy_sources_def lookup2_def)
next
  case (Cons e es)
  obtain s ts where e: "e = (s, ts)" by (cases e)
  from Cons.prems have d: "distinct (map fst es)" "\<forall>e \<in> set es. distinct (map fst (snd e))"
    and s: "s \<notin> fst ` set es" and ts: "distinct (map fst ts)"
    by (simp_all add: e)
  from s have n: "map_of es s = None" by (simp add: map_of_eq_None_iff)
  have m: "(map_of ts c \<noteq> None) = (c \<in> fst ` set ts)"
    by (simp add: map_of_eq_None_iff)
  show ?case
    unfolding e copy_sources_Cons Cons.IH [OF d]
    using n m by (auto simp: lookup2_def edge_msgs_copy_targets [OF ts])
qed

lemma sources_of_copy_sources:
  "sources_of (copy_sources seen es rg) c =
     sources_of rg c \<union> {p. p \<in> set seen \<and> c \<in> set seen
        \<and> (\<exists>ts. (p, ts) \<in> set es \<and> c \<in> fst ` set ts)}"
proof (induction es arbitrary: rg)
  case Nil
  show ?case by (simp add: copy_sources_def)
next
  case (Cons e es)
  obtain s ts where e: "e = (s, ts)" by (cases e)
  show ?case
    unfolding e copy_sources_Cons Cons.IH
    by (auto simp: sources_of_copy_targets)
qed

lemma edge_msgs_new_graph [simp]: "edge_msgs new_graph p c = None"
  by (simp add: edge_msgs_def new_graph_def)

lemma sources_of_new_graph [simp]: "sources_of new_graph c = {}"
  by (simp add: sources_of_def new_graph_def)

lemma edge_msgs_actors_update [simp]: "edge_msgs (g\<lparr>actors := a\<rparr>) = edge_msgs g"
  by (simp add: edge_msgs_def fun_eq_iff)

lemma sources_of_actors_update [simp]: "sources_of (g\<lparr>actors := a\<rparr>) = sources_of g"
  by (simp add: sources_of_def fun_eq_iff)

lemma edge_msgs_copy_seen_edges:
  assumes "well_formed g"
  shows "edge_msgs (copy_seen_edges g seen) p c =
     (if p \<in> set seen \<and> c \<in> set seen then edge_msgs g p c else None)"
proof -
  from assms have d: "distinct (map fst (edges g))"
    "\<forall>e \<in> set (edges g). distinct (map fst (snd e))"
    by (simp_all add: well_formed_def)
  have "lookup2 (edges g) p c = edge_msgs g p c" by (simp add: lookup2_def edge_msgs_def)
  then show ?thesis
    unfolding copy_seen_edges_alt by (auto simp: edge_msgs_copy_sources [OF d])
qed

lemma sources_of_copy_seen_edges:
  assumes "well_formed g"
  shows "sources_of (copy_seen_edges g seen) c =
     {p. p \<in> set seen \<and> c \<in> set seen \<and> edge_msgs g p c \<noteq> None}"
proof -
  from assms have d: "distinct (map fst (edges g))"
    by (simp add: well_formed_def)
  have "(\<exists>ts. (p, ts) \<in> set (edges g) \<and> c \<in> fst ` set ts) = (edge_msgs g p c \<noteq> None)" for p
  proof -
    have "(\<exists>ts. (p, ts) \<in> set (edges g) \<and> c \<in> fst ` set ts)
        = (\<exists>ts. map_of (edges g) p = Some ts \<and> map_of ts c \<noteq> None)"
      using d by (simp add: map_of_eq_None_iff)
    also have "\<dots> = (edge_msgs g p c \<noteq> None)"
      by (auto simp: edge_msgs_def split: option.splits)
    finally show ?thesis .
  qed
  then show ?thesis
    unfolding copy_seen_edges_alt by (simp add: sources_of_copy_sources)
qed


lemma edge_msgs_alt:
  "edge_msgs g p c = map_of (case map_of (edges g) p of None \<Rightarrow> [] | Some ts \<Rightarrow> ts) c"
  by (simp add: edge_msgs_def split: option.splits)

lemma scan_frame_edge_msgs:
  assumes "scan_frame g g'" shows "edge_msgs g' = edge_msgs g"
proof -
  from assms have "extended_by_empty (edges g) (edges g')" by (simp add: scan_frame_def)
  from extended_by_empty_map_of [OF this] show ?thesis
    by (simp add: edge_msgs_alt fun_eq_iff)
qed

lemma scan_frame_well_formed:
  assumes "scan_frame g g'" "well_formed g"
  shows "well_formed g'"
proof -
  from assms(1) have e: "extended_by_empty (edges g) (edges g')"
    and r: "extended_by_empty (reverse_edges g) (reverse_edges g')"
    and a: "actors g' = actors g"
    by (simp_all add: scan_frame_def)
  from extended_by_empty_set(2) [OF e] assms(2)
  have 1: "\<forall>e \<in> set (edges g'). distinct (map fst (snd e)) \<and> (\<forall>t \<in> set (snd e). distinct (snd t))"
    unfolding well_formed_def by fastforce
  from extended_by_empty_set(2) [OF r] assms(2)
  have 2: "\<forall>e \<in> set (reverse_edges g'). distinct (snd e)"
    unfolding well_formed_def by fastforce
  from assms(2) extended_by_empty_distinct [OF e] extended_by_empty_distinct [OF r] 1 2 a
  show ?thesis
    unfolding well_formed_def by simp
qed

lemma fork_graph_well_formed: "well_formed fork_graph"
  by (simp add: well_formed_def fork_graph_def)

text \<open>
  Claim C2. Let \<open>S\<close> be the visited set of the scans: the actors reachable from the
  seeds, as the mode prescribes. The extracted graph has exactly the actors \<open>S\<close>, and
  it has the edge from \<open>p\<close> to \<open>c\<close> with label set \<open>msgs\<close> exactly when the graph it was
  extracted from has that edge with that label set and both \<open>p\<close> and \<open>c\<close> are in \<open>S\<close>.
\<close>

theorem extracted_subgraph_edges:
  assumes "well_formed g"
  shows "set (actors (fst (make_subgraph_related_to g leapp_entities tight)))
       = set (fst (seen_actors_of g leapp_entities tight))
     \<and> set (fst (seen_actors_of g leapp_entities tight))
       = (if tight then tight_seen g leapp_entities else loose_seen g leapp_entities)
     \<and> (edge_msgs (fst (make_subgraph_related_to g leapp_entities tight)) p c = Some msgs)
       = (edge_msgs g p c = Some msgs
          \<and> p \<in> set (fst (seen_actors_of g leapp_entities tight))
          \<and> c \<in> set (fst (seen_actors_of g leapp_entities tight)))"
proof -
  note f = seen_actors_of_correct(2) [of g leapp_entities tight]
  note w = scan_frame_well_formed [OF f assms]
  show ?thesis
    unfolding make_subgraph_related_to_eq fst_conv actors_copy_seen_edges
      edge_msgs_copy_seen_edges [OF w] scan_frame_edge_msgs [OF f]
    by (auto simp: seen_actors_of_correct(1))
qed

theorem extracted_subgraph_edges_witness:
  "well_formed fork_graph
   \<and> set (fst (seen_actors_of fork_graph [''A''] True)) = {''A'', ''B'', ''C''}
   \<and> edge_msgs (fst (make_subgraph_related_to fork_graph [''A''] True)) ''A'' ''C'' = Some [''X'']
   \<and> edge_msgs (fst (make_subgraph_related_to fork_graph [''A''] True)) ''D'' ''C'' \<noteq> Some [''Z'']"
proof -
  have s: "fst (seen_actors_of fork_graph [''A''] True) = [''A'', ''B'', ''C'']"
    by code_simp
  have e: "edge_msgs fork_graph ''A'' ''C'' = Some [''X'']"
    by code_simp
  note t = extracted_subgraph_edges [OF fork_graph_well_formed, of "[''A'']" True,
      THEN conjunct2, THEN conjunct2]
  have 1: "edge_msgs (fst (make_subgraph_related_to fork_graph [''A''] True)) ''A'' ''C''
      = Some [''X'']"
    unfolding t s by (simp add: e)
  have 2: "edge_msgs (fst (make_subgraph_related_to fork_graph [''A''] True)) ''D'' ''C''
      \<noteq> Some [''Z'']"
    unfolding t s by simp
  from 1 2 show ?thesis
    by (simp add: fork_graph_well_formed s)
qed

section \<open>Invariants of the produced graphs\<close>

text \<open>The invariant of the graphs the operations build: the containers are well
  formed, no stored label set is empty, the actors are the endpoints of the stored
  edges, and the reverse index of an actor holds the sources of its incoming edges.\<close>

definition consistent :: "RepositoryGraph \<Rightarrow> bool" where
  "consistent g =
     (well_formed g
      \<and> (\<forall>p c. edge_msgs g p c \<noteq> Some [])
      \<and> set (actors g) = {p. \<exists>c. edge_msgs g p c \<noteq> None} \<union> {c. \<exists>p. edge_msgs g p c \<noteq> None}
      \<and> (\<forall>c. sources_of g c = {p. edge_msgs g p c \<noteq> None}))"

lemma dd_modify_values:
  assumes "\<forall>e \<in> set d. P (snd e)" "P (f dflt)" "\<And>v. P v \<Longrightarrow> P (f v)"
  shows "\<forall>e \<in> set (dd_modify dflt f k d). P (snd e)"
  using assms by (induction dflt f k d rule: dd_modify.induct) auto

definition inner_ok :: "(string \<times> string list) list \<Rightarrow> bool" where
  "inner_ok ts = (distinct (map fst ts) \<and> (\<forall>t \<in> set ts. distinct (snd t)))"

lemma well_formed_alt:
  "well_formed g =
     (distinct (map fst (edges g)) \<and> (\<forall>e \<in> set (edges g). inner_ok (snd e))
      \<and> inner_ok (reverse_edges g) \<and> distinct (actors g))"
  by (auto simp: well_formed_def inner_ok_def)

lemma inner_ok_Nil [simp]: "inner_ok []"
  by (simp add: inner_ok_def)

lemma inner_ok_set_add: "inner_ok ts \<Longrightarrow> inner_ok (dd_modify [] (\<lambda>xs. set_add xs x) k ts)"
  unfolding inner_ok_def
  using dd_modify_values [of ts distinct "\<lambda>xs. set_add xs x" "[]" k]
  by (simp add: distinct_keys_dd_modify set_add_distinct set_add_def)

lemma inner_ok_dict_set: "inner_ok ts \<Longrightarrow> distinct msgs \<Longrightarrow> inner_ok (dict_set k msgs ts)"
  unfolding inner_ok_def dict_set_def
  using dd_modify_values [of ts distinct "\<lambda>_. msgs" msgs k]
  by (simp add: distinct_keys_dd_modify)

lemma well_formed_add_edge:
  assumes "well_formed g"
  shows "well_formed (add_edge g s m t)"
proof -
  from assms have "\<forall>e \<in> set (edges g). inner_ok (snd e)" by (simp add: well_formed_alt)
  then have "\<forall>e \<in> set (dd_modify [] (dd_modify [] (\<lambda>msgs. set_add msgs m) t) s (edges g)).
      inner_ok (snd e)"
  proof (rule dd_modify_values)
    show "inner_ok (dd_modify [] (\<lambda>msgs. set_add msgs m) t [])"
      by (rule inner_ok_set_add) simp
    show "inner_ok v \<Longrightarrow> inner_ok (dd_modify [] (\<lambda>msgs. set_add msgs m) t v)" for v
      by (rule inner_ok_set_add)
  qed
  with assms show ?thesis
    by (simp add: well_formed_alt add_edge_def distinct_keys_dd_modify inner_ok_set_add
        set_add_distinct)
qed

lemma edge_msgs_add_edge:
  "edge_msgs (add_edge g s m t) p c =
     (if p = s \<and> c = t
      then Some (set_add (case edge_msgs g s t of None \<Rightarrow> [] | Some msgs \<Rightarrow> msgs) m)
      else edge_msgs g p c)"
  by (auto simp: edge_msgs_def add_edge_def map_of_dd_modify split: option.splits)

lemma sources_of_add_edge:
  "sources_of (add_edge g s m t) c = (if c = t then insert s (sources_of g t) else sources_of g c)"
  by (auto simp: sources_of_def add_edge_def map_of_dd_modify split: option.splits)

lemma set_add_not_Nil [simp]: "set_add xs x \<noteq> []"
  by (auto simp: set_add_def)

lemma consistent_add_edge:
  assumes "consistent g"
  shows "consistent (add_edge g s m t)"
proof -
  from assms have w: "well_formed g" and n: "\<forall>p c. edge_msgs g p c \<noteq> Some []"
    and a: "set (actors g) = {p. \<exists>c. edge_msgs g p c \<noteq> None} \<union> {c. \<exists>p. edge_msgs g p c \<noteq> None}"
    and r: "\<forall>c. sources_of g c = {p. edge_msgs g p c \<noteq> None}"
    by (simp_all add: consistent_def)
  have 1: "\<forall>p c. edge_msgs (add_edge g s m t) p c \<noteq> Some []"
    using n by (simp add: edge_msgs_add_edge)
  have 2: "set (actors (add_edge g s m t)) = insert s (insert t (set (actors g)))"
    by (auto simp: add_edge_def)
  have 3: "{p. \<exists>c. edge_msgs (add_edge g s m t) p c \<noteq> None}
      = insert s {p. \<exists>c. edge_msgs g p c \<noteq> None}"
    by (auto simp: edge_msgs_add_edge)
  have 4: "{c. \<exists>p. edge_msgs (add_edge g s m t) p c \<noteq> None}
      = insert t {c. \<exists>p. edge_msgs g p c \<noteq> None}"
    by (auto simp: edge_msgs_add_edge)
  have 5: "\<forall>c. sources_of (add_edge g s m t) c = {p. edge_msgs (add_edge g s m t) p c \<noteq> None}"
    using r by (auto simp: sources_of_add_edge edge_msgs_add_edge)
  from well_formed_add_edge [OF w] 1 5 show ?thesis
    unfolding consistent_def 2 3 4 a by auto
qed

lemma consistent_new_graph: "consistent new_graph"
  by (simp add: consistent_def well_formed_def) (simp add: new_graph_def)

lemma consistent_construct: "consistent (construct_graph_from_actors ds)"
proof -
  have 1: "consistent g \<Longrightarrow>
      consistent (fold (\<lambda>(consumer, producer) g. add_edge g producer m consumer) xs g)"
    for m xs g
    by (induction xs arbitrary: g) (auto simp: consistent_add_edge)
  have 2: "consistent g \<Longrightarrow> consistent (add_spoken pt ct m g)" for pt ct m g
    by (simp add: add_spoken_def Let_def 1)
  have 3: "consistent g \<Longrightarrow> consistent (fold (add_spoken pt ct) ms g)" for pt ct ms g
    by (induction ms arbitrary: g) (auto simp: 2)
  show ?thesis
    by (simp add: construct_graph_from_actors_def 3 consistent_new_graph split: prod.splits)
qed

lemma consistent_scan_frame:
  assumes "scan_frame g g'" "consistent g"
  shows "consistent g'"
  using assms(2) scan_frame_well_formed [OF assms(1)] assms(1)
  unfolding consistent_def scan_frame_edge_msgs [OF assms(1)] scan_frame_sources_of [OF assms(1)]
  by (simp add: scan_frame_def)


lemma edge_triples_edge_msgs:
  assumes "well_formed g"
  shows "((p, m, c) \<in> edge_triples g) = (\<exists>msgs. edge_msgs g p c = Some msgs \<and> m \<in> set msgs)"
proof -
  from assms have d: "distinct (map fst (edges g))"
    and i: "\<forall>e \<in> set (edges g). distinct (map fst (snd e))"
    by (simp_all add: well_formed_def)
  have "((p, m, c) \<in> edge_triples g)
      = (\<exists>ts. map_of (edges g) p = Some ts \<and> (c, m) \<in> dict_pairs set ts)"
    by (simp add: edge_triples_iff dict_pairs_map_of [OF d])
  also have "\<dots> = (\<exists>ts. map_of (edges g) p = Some ts \<and> (\<exists>msgs. map_of ts c = Some msgs \<and> m \<in> set msgs))"
  proof -
    have "map_of (edges g) p = Some ts \<Longrightarrow>
        ((c, m) \<in> dict_pairs set ts) = (\<exists>msgs. map_of ts c = Some msgs \<and> m \<in> set msgs)" for ts
    proof -
      assume "map_of (edges g) p = Some ts"
      then have "(p, ts) \<in> set (edges g)" by (rule map_of_SomeD)
      with i have "distinct (map fst ts)" by auto
      then show ?thesis by (rule dict_pairs_map_of)
    qed
    then show ?thesis by auto
  qed
  also have "\<dots> = (\<exists>msgs. edge_msgs g p c = Some msgs \<and> m \<in> set msgs)"
    by (auto simp: edge_msgs_def split: option.splits)
  finally show ?thesis .
qed

definition edge_rel :: "RepositoryGraph \<Rightarrow> (string \<times> string) set" where
  "edge_rel g = {(p, c). edge_msgs g p c \<noteq> None}"

lemma targets_of_edge_msgs: "targets_of g p = {c. edge_msgs g p c \<noteq> None}"
proof (cases "map_of (edges g) p")
  case None
  then show ?thesis by (simp add: targets_of_def edge_msgs_def)
next
  case (Some ts)
  have "(map_of ts c \<noteq> None) = (c \<in> fst ` set ts)" for c
    by (simp add: map_of_eq_None_iff)
  then have "{c. map_of ts c \<noteq> None} = fst ` set ts" by blast
  with Some show ?thesis by (simp add: targets_of_def edge_msgs_def)
qed

lemma forward_rel_edge_rel: "forward_rel g = edge_rel g"
  by (auto simp: forward_rel_def edge_rel_def targets_of_edge_msgs)

lemma backward_rel_edge_rel:
  assumes "consistent g" shows "backward_rel g = (edge_rel g)\<inverse>"
  using assms by (auto simp: backward_rel_def edge_rel_def consistent_def)

lemma partner_tight:
  assumes N: "N \<subseteq> Field E" and T: "\<forall>c \<in> T. \<exists>p \<in> P. (p, c) \<in> E"
    and P: "\<forall>p \<in> P. \<exists>c \<in> T. (p, c) \<in> E"
    and v: "v \<in> E\<^sup>* `` (N \<union> T) \<union> (E\<inverse>)\<^sup>* `` (N \<union> P)"
  shows "\<exists>u \<in> E\<^sup>* `` (N \<union> T) \<union> (E\<inverse>)\<^sup>* `` (N \<union> P). (u, v) \<in> E \<or> (v, u) \<in> E"
proof -
  let ?S = "E\<^sup>* `` (N \<union> T) \<union> (E\<inverse>)\<^sup>* `` (N \<union> P)"
  have seeds: "N \<union> T \<union> P \<subseteq> ?S" by auto
  have named: "\<exists>u \<in> ?S. (u, x) \<in> E \<or> (x, u) \<in> E" if "x \<in> N" for x
  proof -
    from that N have "x \<in> Field E" by auto
    then consider u where "(x, u) \<in> E" | u where "(u, x) \<in> E"
      by (auto simp: Field_def)
    then show ?thesis
    proof cases
      case 1
      with that have "u \<in> E\<^sup>* `` (N \<union> T)" by auto
      with 1 show ?thesis by blast
    next
      case 2
      with that have "u \<in> (E\<inverse>)\<^sup>* `` (N \<union> P)" by auto
      with 2 show ?thesis by blast
    qed
  qed
  have seed: "\<exists>u \<in> ?S. (u, x) \<in> E \<or> (x, u) \<in> E" if "x \<in> N \<union> T \<union> P" for x
    using that named T P seeds by blast
  from v show ?thesis
  proof
    assume "v \<in> E\<^sup>* `` (N \<union> T)"
    then obtain s where s: "s \<in> N \<union> T" "(s, v) \<in> E\<^sup>*" by auto
    from s(2) show ?thesis
    proof (cases rule: rtranclE)
      case base
      with s(1) seed [of v] show ?thesis by auto
    next
      case (step u)
      with s(1) have "u \<in> ?S" by auto
      with step show ?thesis by blast
    qed
  next
    assume "v \<in> (E\<inverse>)\<^sup>* `` (N \<union> P)"
    then obtain s where s: "s \<in> N \<union> P" "(s, v) \<in> (E\<inverse>)\<^sup>*" by auto
    from s(2) show ?thesis
    proof (cases rule: rtranclE)
      case base
      with s(1) seed [of v] show ?thesis by auto
    next
      case (step u)
      with s(1) have "u \<in> ?S" by auto
      with step show ?thesis by blast
    qed
  qed
qed

lemma partner_loose:
  assumes N: "N \<subseteq> Field E" and T: "\<forall>c \<in> T. \<exists>p \<in> P. (p, c) \<in> E"
    and P: "\<forall>p \<in> P. \<exists>c \<in> T. (p, c) \<in> E"
    and v: "v \<in> (E \<union> E\<inverse>)\<^sup>* `` ((N \<union> T) \<union> (N \<union> P))"
  shows "\<exists>u \<in> (E \<union> E\<inverse>)\<^sup>* `` ((N \<union> T) \<union> (N \<union> P)). (u, v) \<in> E \<or> (v, u) \<in> E"
proof -
  let ?S = "(E \<union> E\<inverse>)\<^sup>* `` ((N \<union> T) \<union> (N \<union> P))"
  have closed: "u \<in> ?S" if "x \<in> ?S" "(x, u) \<in> E \<or> (u, x) \<in> E" for x u
  proof -
    from that(1) obtain s where s: "s \<in> (N \<union> T) \<union> (N \<union> P)" "(s, x) \<in> (E \<union> E\<inverse>)\<^sup>*"
      by auto
    from that(2) have "(x, u) \<in> E \<union> E\<inverse>" by auto
    with s(2) have "(s, u) \<in> (E \<union> E\<inverse>)\<^sup>*" by (rule rtrancl_into_rtrancl)
    with s(1) show ?thesis by auto
  qed
  from v obtain s where s: "s \<in> (N \<union> T) \<union> (N \<union> P)" "(s, v) \<in> (E \<union> E\<inverse>)\<^sup>*"
    by auto
  from s(2) show ?thesis
  proof (cases rule: rtranclE)
    case base
    with s(1) N T P have "\<exists>u. (u, v) \<in> E \<or> (v, u) \<in> E"
      by (fastforce simp: Field_def)
    then obtain u where u: "(u, v) \<in> E \<or> (v, u) \<in> E" ..
    with closed [OF v, of u] show ?thesis by blast
  next
    case (step u)
    with s(1) have "u \<in> ?S" by auto
    with step show ?thesis by blast
  qed
qed


lemma well_formed_copy_edge:
  assumes "well_formed rg" "distinct msgs"
  shows "well_formed (copy_edge s t msgs rg)"
proof -
  from assms(1) have "\<forall>e \<in> set (edges rg). inner_ok (snd e)" by (simp add: well_formed_alt)
  then have "\<forall>e \<in> set (dd_modify [] (dict_set t msgs) s (edges rg)). inner_ok (snd e)"
  proof (rule dd_modify_values)
    show "inner_ok (dict_set t msgs [])"
      using assms(2) by (intro inner_ok_dict_set) simp_all
    show "inner_ok v \<Longrightarrow> inner_ok (dict_set t msgs v)" for v
      using assms(2) by (intro inner_ok_dict_set)
  qed
  with assms(1) show ?thesis
    by (simp add: well_formed_alt copy_edge_def distinct_keys_dd_modify inner_ok_set_add)
qed

lemma well_formed_copy_targets:
  assumes "well_formed rg" "\<forall>t \<in> set ts. distinct (snd t)"
  shows "well_formed (copy_targets seen s ts rg)"
  using assms
proof (induction ts arbitrary: rg)
  case Nil
  then show ?case by (simp add: copy_targets_def)
next
  case (Cons e ts)
  obtain t msgs where e: "e = (t, msgs)" by (cases e)
  from Cons.prems have "well_formed (if t \<notin> set seen then rg else copy_edge s t msgs rg)"
    by (simp add: e well_formed_copy_edge)
  with Cons.IH Cons.prems(2) show ?case
    unfolding e copy_targets_Cons by simp
qed

lemma well_formed_copy_sources:
  assumes "well_formed rg" "\<forall>e \<in> set es. \<forall>t \<in> set (snd e). distinct (snd t)"
  shows "well_formed (copy_sources seen es rg)"
  using assms
proof (induction es arbitrary: rg)
  case Nil
  then show ?case by (simp add: copy_sources_def)
next
  case (Cons e es)
  obtain s ts where e: "e = (s, ts)" by (cases e)
  from Cons.prems have "well_formed (if s \<notin> set seen then rg else copy_targets seen s ts rg)"
    by (simp add: e well_formed_copy_targets)
  with Cons.IH Cons.prems(2) show ?case
    unfolding e copy_sources_Cons by simp
qed

lemma well_formed_new_graph: "well_formed new_graph"
  by (simp add: well_formed_def new_graph_def)

lemma well_formed_copy_seen_edges:
  assumes "well_formed g" "distinct seen"
  shows "well_formed (copy_seen_edges g seen)"
proof -
  from assms(1) have "\<forall>e \<in> set (edges g). \<forall>t \<in> set (snd e). distinct (snd t)"
    by (simp add: well_formed_def)
  from well_formed_copy_sources [OF well_formed_new_graph this, of seen] assms(2)
  show ?thesis
    by (simp add: copy_seen_edges_alt well_formed_def)
qed

lemma seen_partner:
  assumes "consistent g"
    and "v \<in> (if tight then tight_seen g es else loose_seen g es)"
  shows "\<exists>u \<in> (if tight then tight_seen g es else loose_seen g es).
     edge_msgs g u v \<noteq> None \<or> edge_msgs g v u \<noteq> None"
proof -
  let ?E = "edge_rel g"
  let ?N = "named_seeds g es" and ?T = "message_targets g es" and ?P = "message_sources g es"
  from assms(1) have w: "well_formed g" by (simp add: consistent_def)
  obtain fs bs where c: "collect_actors_for_entities g es = (fs, bs)" by (rule prod.exhaust)
  note sets = collect_actors_for_entities_sets(1,2) [OF c]
  from assms(1) have "set (actors g) = Field ?E"
    by (auto simp: consistent_def edge_rel_def Field_def)
  then have N: "?N \<subseteq> Field ?E" by (auto simp: named_seeds_def)
  have rel: "(p, e, c) \<in> edge_triples g \<Longrightarrow> (p, c) \<in> ?E" for p e c
    by (auto simp: edge_triples_edge_msgs [OF w] edge_rel_def)
  have T: "\<forall>c \<in> ?T. \<exists>p \<in> ?P. (p, c) \<in> ?E"
    unfolding message_targets_def message_sources_def using rel by blast
  have P: "\<forall>p \<in> ?P. \<exists>c \<in> ?T. (p, c) \<in> ?E"
    unfolding message_targets_def message_sources_def using rel by blast
  have t: "tight_seen g es = ?E\<^sup>* `` (?N \<union> ?T) \<union> (?E\<inverse>)\<^sup>* `` (?N \<union> ?P)"
    by (simp add: tight_seen_def c sets forward_rel_edge_rel backward_rel_edge_rel [OF assms(1)])
  have l: "loose_seen g es = (?E \<union> ?E\<inverse>)\<^sup>* `` ((?N \<union> ?T) \<union> (?N \<union> ?P))"
    by (simp add: loose_seen_def c sets forward_rel_edge_rel backward_rel_edge_rel [OF assms(1)])
  show ?thesis
  proof (cases tight)
    case True
    with assms(2) have "v \<in> ?E\<^sup>* `` (?N \<union> ?T) \<union> (?E\<inverse>)\<^sup>* `` (?N \<union> ?P)"
      by (simp add: t)
    from partner_tight [OF N T P this] True show ?thesis
      by (simp add: t edge_rel_def)
  next
    case False
    with assms(2) have "v \<in> (?E \<union> ?E\<inverse>)\<^sup>* `` ((?N \<union> ?T) \<union> (?N \<union> ?P))"
      by (simp add: l)
    from partner_loose [OF N T P this] False show ?thesis
      by (simp add: l edge_rel_def)
  qed
qed

lemma consistent_subgraph:
  assumes "consistent g"
  shows "consistent (fst (make_subgraph_related_to g es tight))"
proof -
  let ?seen = "fst (seen_actors_of g es tight)" and ?g' = "snd (seen_actors_of g es tight)"
  let ?S = "if tight then tight_seen g es else loose_seen g es"
  let ?r = "copy_seen_edges ?g' ?seen"
  note f = seen_actors_of_correct(2) [of g es tight]
  from assms have w: "well_formed g" by (simp add: consistent_def)
  note w' = scan_frame_well_formed [OF f w]
  have S: "set ?seen = ?S" by (rule seen_actors_of_correct(1))
  have e: "edge_msgs ?r p c = (if p \<in> ?S \<and> c \<in> ?S then edge_msgs g p c else None)" for p c
    unfolding edge_msgs_copy_seen_edges [OF w'] S scan_frame_edge_msgs [OF f] ..
  have r: "sources_of ?r c = {p. p \<in> ?S \<and> c \<in> ?S \<and> edge_msgs g p c \<noteq> None}" for c
    unfolding sources_of_copy_seen_edges [OF w'] S scan_frame_edge_msgs [OF f] ..
  have 1: "well_formed ?r"
    by (rule well_formed_copy_seen_edges [OF w' seen_actors_of_correct(3)])
  have 2: "\<forall>p c. edge_msgs ?r p c \<noteq> Some []"
    using assms by (simp add: e consistent_def)
  have 3: "set (actors ?r) = {p. \<exists>c. edge_msgs ?r p c \<noteq> None} \<union> {c. \<exists>p. edge_msgs ?r p c \<noteq> None}"
  proof (intro equalityI subsetI)
    fix v assume "v \<in> set (actors ?r)"
    then have v: "v \<in> ?S" by (simp add: S)
    from seen_partner [OF assms v] obtain u where
      "u \<in> ?S" "edge_msgs g u v \<noteq> None \<or> edge_msgs g v u \<noteq> None"
      by blast
    with v have "edge_msgs ?r u v \<noteq> None \<or> edge_msgs ?r v u \<noteq> None"
      unfolding e by simp
    then show "v \<in> {p. \<exists>c. edge_msgs ?r p c \<noteq> None} \<union> {c. \<exists>p. edge_msgs ?r p c \<noteq> None}"
      by blast
  next
    fix v assume "v \<in> {p. \<exists>c. edge_msgs ?r p c \<noteq> None} \<union> {c. \<exists>p. edge_msgs ?r p c \<noteq> None}"
    then have "v \<in> ?S" unfolding e by (auto split: if_splits)
    then show "v \<in> set (actors ?r)" by (simp add: S)
  qed
  have 4: "\<forall>c. sources_of ?r c = {p. edge_msgs ?r p c \<noteq> None}"
    unfolding r e by auto
  from 1 2 3 4 show ?thesis
    unfolding make_subgraph_related_to_eq fst_conv consistent_def by blast
qed


text \<open>The graphs the public operations produce: the empty graph of the
  constructor, a graph built from actor definitions, a graph after \<^verbatim>\<open>add_edge\<close>, an
  extracted subgraph, and the graph a subgraph was extracted from, as the call
  leaves it.\<close>

inductive produced :: "RepositoryGraph \<Rightarrow> bool" where
  empty: "produced new_graph"
| built: "produced (construct_graph_from_actors actor_definitions)"
| added: "produced g \<Longrightarrow> produced (add_edge g source_actor msg target_actor)"
| extracted: "produced g \<Longrightarrow> produced (fst (make_subgraph_related_to g leapp_entities tight))"
| scanned: "produced g \<Longrightarrow> produced (snd (make_subgraph_related_to g leapp_entities tight))"

text \<open>The fork, restricted in tight mode to what relates to \<open>A\<close>.\<close>

definition fork_subgraph :: RepositoryGraph where
  "fork_subgraph = fst (make_subgraph_related_to (construct_graph_from_actors fork_actors) [''A''] True)"

lemma produced_consistent: "produced g \<Longrightarrow> consistent g"
proof (induction rule: produced.induct)
  case empty
  show ?case by (rule consistent_new_graph)
next
  case (built actor_definitions)
  show ?case by (rule consistent_construct)
next
  case (added g source_actor msg target_actor)
  then show ?case by (simp add: consistent_add_edge)
next
  case (extracted g leapp_entities tight)
  then show ?case by (simp add: consistent_subgraph)
next
  case (scanned g leapp_entities tight)
  from consistent_scan_frame [OF seen_actors_of_correct(2) scanned.IH]
  show ?case by (simp add: make_subgraph_related_to_eq)
qed

lemma has_edge_iff:
  assumes "consistent g"
  shows "(\<exists>m. (p, m, c) \<in> set (iter_edges g)) = (edge_msgs g p c \<noteq> None)"
proof -
  from assms have w: "well_formed g" and n: "edge_msgs g p c \<noteq> Some []"
    by (simp_all add: consistent_def)
  have "(\<exists>m. (p, m, c) \<in> set (iter_edges g))
      = (\<exists>msgs. edge_msgs g p c = Some msgs \<and> (\<exists>m. m \<in> set msgs))"
    unfolding set_iter_edges edge_triples_edge_msgs [OF w] by blast
  also have "\<dots> = (edge_msgs g p c \<noteq> None)"
    using n by (cases "edge_msgs g p c") (auto simp: neq_Nil_conv)
  finally show ?thesis .
qed

lemma fork_subgraph_eq:
  "fork_subgraph =
     \<lparr>edges = [(''A'', [(''B'', [''X'']), (''C'', [''X''])])],
      reverse_edges = [(''B'', [''A'']), (''C'', [''A''])],
      actors = [''A'', ''B'', ''C'']\<rparr>"
  unfolding fork_subgraph_def by code_simp

lemma produced_fork_subgraph: "produced fork_subgraph"
  unfolding fork_subgraph_def by (intro produced.extracted produced.built)

text \<open>
  Claim C6. In every graph produced by the public operations the set of actors is
  exactly the set of sources and targets of its edges; an actor that takes part in
  no edge is not in it.
\<close>

theorem produced_node_set:
  assumes "produced g"
  shows "set (actors g) = {p. \<exists>m c. (p, m, c) \<in> set (iter_edges g)}
     \<union> {c. \<exists>p m. (p, m, c) \<in> set (iter_edges g)}"
proof -
  note c = produced_consistent [OF assms]
  have "{p. \<exists>m c. (p, m, c) \<in> set (iter_edges g)} = {p. \<exists>c. edge_msgs g p c \<noteq> None}"
    using has_edge_iff [OF c] by blast
  moreover have "{c. \<exists>p m. (p, m, c) \<in> set (iter_edges g)} = {c. \<exists>p. edge_msgs g p c \<noteq> None}"
    using has_edge_iff [OF c] by blast
  ultimately show ?thesis
    using c by (simp add: consistent_def)
qed

theorem produced_node_set_witness:
  "produced fork_subgraph
   \<and> ''D'' \<in> set (actors (construct_graph_from_actors fork_actors))
   \<and> set (actors fork_subgraph) = {''A'', ''B'', ''C''}
   \<and> {p. \<exists>m c. (p, m, c) \<in> set (iter_edges fork_subgraph)}
       \<union> {c. \<exists>p m. (p, m, c) \<in> set (iter_edges fork_subgraph)} = {''A'', ''B'', ''C''}"
proof -
  have "set (actors fork_subgraph) = {''A'', ''B'', ''C''}"
    by (simp add: fork_subgraph_eq)
  with produced_node_set [OF produced_fork_subgraph] show ?thesis
    by (simp add: produced_fork_subgraph construct_fork_actors fork_graph_def)
qed

text \<open>
  Claim C7. In every graph produced by the public operations the reverse index
  agrees with the edges: \<open>p\<close> is in the reverse set of \<open>c\<close> exactly when there is an
  edge from \<open>p\<close> to \<open>c\<close> carrying some message.
\<close>

theorem produced_reverse_index:
  assumes "produced g"
  shows "(p \<in> sources_of g c) = (\<exists>m. (p, m, c) \<in> set (iter_edges g))"
  using produced_consistent [OF assms] has_edge_iff [OF produced_consistent [OF assms], of p c]
  by (simp add: consistent_def)

theorem produced_reverse_index_witness:
  "produced fork_subgraph
   \<and> ''A'' \<in> sources_of fork_subgraph ''C''
   \<and> ''D'' \<notin> sources_of fork_subgraph ''C''
   \<and> ''D'' \<in> sources_of (construct_graph_from_actors fork_actors) ''C''"
proof -
  have i: "iter_edges fork_subgraph = [(''A'', ''X'', ''B''), (''A'', ''X'', ''C'')]"
    by (simp add: fork_subgraph_eq iter_edges_def)
  have j: "iter_edges fork_graph = [(''A'', ''X'', ''B''), (''A'', ''X'', ''C''), (''D'', ''Z'', ''C'')]"
    by (simp add: fork_graph_def iter_edges_def)
  have b: "produced fork_graph"
    using produced.built [of fork_actors] by (simp add: construct_fork_actors)
  from produced_reverse_index [OF produced_fork_subgraph, of "''A''" "''C''"]
    produced_reverse_index [OF produced_fork_subgraph, of "''D''" "''C''"]
    produced_reverse_index [OF b, of "''D''" "''C''"]
  show ?thesis
    by (simp add: produced_fork_subgraph i j construct_fork_actors)
qed

section \<open>The rendered text\<close>

text \<open>The lines of a text: what stands between its newline characters (Python's
  \<^verbatim>\<open>text.split('\n')\<close>; a text that ends with a newline has an empty last line).\<close>

fun split_on :: "char \<Rightarrow> string \<Rightarrow> string list" where
  "split_on sep [] = [[]]"
| "split_on sep (c # cs) =
     (if c = sep then [] # split_on sep cs
      else (case split_on sep cs of [] \<Rightarrow> [[c]] | l # ls \<Rightarrow> (c # l) # ls))"

definition lines_of :: "string \<Rightarrow> string list" where
  "lines_of text = split_on (CHR 0x0A) text"

text \<open>A section of the output as \<^verbatim>\<open>'\n {nodes}'\<close> renders it: one space, then the
  lines joined by newlines. The space stands before the first line, and alone on a
  line when there are no lines.\<close>

definition indent_first :: "string list \<Rightarrow> string list" where
  "indent_first ls = (case ls of [] \<Rightarrow> ['' ''] | l # ls' \<Rightarrow> ('' '' @ l) # ls')"

definition header_lines :: "string list" where
  \<open>header_lines = [''digraph "leapp-actors" {'', ''nodesep=2'', ''ranksep=2'', ''rankdir=LR'']\<close>

lemma split_on_no_sep: "sep \<notin> set a \<Longrightarrow> split_on sep a = [a]"
  by (induction a) auto

lemma split_on_append:
  "sep \<notin> set a \<Longrightarrow> split_on sep (a @ sep # rest) = a # split_on sep rest"
  by (induction a) auto

lemma split_on_join_Cons:
  assumes "\<forall>l \<in> set (l0 # ls). sep \<notin> set l"
  shows "split_on sep (join [sep] (l0 # ls) @ sep # rest) = (l0 # ls) @ split_on sep rest"
  using assms
proof (induction ls arbitrary: l0)
  case Nil
  then show ?case by (simp add: split_on_append)
next
  case (Cons l1 ls)
  from Cons.prems have "split_on sep (l0 @ sep # (join [sep] (l1 # ls) @ sep # rest))
      = l0 # split_on sep (join [sep] (l1 # ls) @ sep # rest)"
    by (intro split_on_append) simp
  with Cons.IH [of l1] Cons.prems show ?case by simp
qed

lemma join_prefix: "a @ join sep (l0 # ls) = join sep ((a @ l0) # ls)"
  by (cases ls) simp_all

lemma split_on_join:
  assumes "\<forall>l \<in> set ls. sep \<notin> set l" "sep \<notin> set a"
  shows "split_on sep (a @ join [sep] ls @ sep # rest)
     = (case ls of [] \<Rightarrow> [a] | l # ls' \<Rightarrow> (a @ l) # ls') @ split_on sep rest"
proof (cases ls)
  case Nil
  with assms(2) show ?thesis by (simp add: split_on_append)
next
  case (Cons l0 ls')
  with assms have "\<forall>l \<in> set ((a @ l0) # ls'). sep \<notin> set l" by simp
  from split_on_join_Cons [OF this, of rest] show ?thesis
    unfolding Cons by (simp add: join_prefix [symmetric])
qed

lemma node_declaration_newline_free:
  "CHR 0x0A \<notin> set actor \<Longrightarrow> CHR 0x0A \<notin> set (node_declaration actor)"
  by (simp add: node_declaration_def)

lemma edge_declaration_newline_free:
  "CHR 0x0A \<notin> set p \<union> set m \<union> set c \<Longrightarrow> CHR 0x0A \<notin> set (edge_declaration (p, m, c))"
  by (simp add: edge_declaration_def)

lemma lines_of_footer: "lines_of ('' '' @ footer @ newline) = ['' }'', '''']"
  by (simp add: lines_of_def footer_def newline_def)

lemma lines_of_header:
  "lines_of (header @ newline @ rest) = header_lines @ lines_of rest"
  by (simp add: lines_of_def header_def header_lines_def newline_def)

lemma lines_of_section:
  assumes "\<forall>l \<in> set ls. CHR 0x0A \<notin> set l"
  shows "lines_of ('' '' @ join newline ls @ newline @ rest) = indent_first ls @ lines_of rest"
  using split_on_join [of ls "CHR 0x0A" "'' ''" rest] assms
  by (simp add: lines_of_def newline_def indent_first_def split: list.splits)

text \<open>
  Claim C8, as the spec states it: the text is the header lines, one line
  \<^verbatim>\<open><name> [label=<name>]\<close> per node, one line \<^verbatim>\<open><source> -> <target> [label=<label>]\<close>
  per edge and message, and the footer \<^verbatim>\<open>}\<close>, bit for bit. The format string
  \<^verbatim>\<open>'{header}\n {nodes}\n {edges}\n {footer}\n'\<close> puts a space after three of its
  newlines: for the chain, no line of the text is \<^verbatim>\<open>A [label=A]\<close>, none is
  \<^verbatim>\<open>A -> B [label=X]\<close>, and none is \<^verbatim>\<open>}\<close>.
\<close>

theorem into_dot_not_bit_for_bit:
  \<open>into_dot chain_graph =
     ''digraph "leapp-actors" {'' @ newline @ ''nodesep=2'' @ newline @ ''ranksep=2'' @ newline
     @ ''rankdir=LR'' @ newline
     @ '' A [label=A]'' @ newline @ ''B [label=B]'' @ newline @ ''C [label=C]'' @ newline
     @ '' A -> B [label=X]'' @ newline @ ''B -> C [label=Y]'' @ newline
     @ '' }'' @ newline
   \<and> ''A [label=A]'' \<notin> set (lines_of (into_dot chain_graph))
   \<and> ''A -> B [label=X]'' \<notin> set (lines_of (into_dot chain_graph))
   \<and> ''}'' \<notin> set (lines_of (into_dot chain_graph))\<close>
  by code_simp

text \<open>
  Claim C8, amended. When no name holds a newline, the lines of the text are the four
  header lines, one declaration per node, one declaration per edge and message, the
  footer and an empty last line (the text ends with a newline), where the first node
  line, the first edge line and the footer begin with one space more, and a section
  without lines is a line holding one space.
\<close>

theorem into_dot_lines:
  assumes "\<forall>actor \<in> set (actors g). CHR 0x0A \<notin> set actor"
    and "\<forall>(p, m, c) \<in> set (iter_edges g). CHR 0x0A \<notin> set p \<union> set m \<union> set c"
  shows "lines_of (into_dot g)
     = header_lines
       @ indent_first (map node_declaration (actors g))
       @ indent_first (map edge_declaration (iter_edges g))
       @ ['' }'', '''']"
proof -
  from assms(1) have n: "\<forall>l \<in> set (map node_declaration (actors g)). CHR 0x0A \<notin> set l"
    by (auto simp: node_declaration_newline_free)
  from assms(2) have e: "\<forall>l \<in> set (map edge_declaration (iter_edges g)). CHR 0x0A \<notin> set l"
    by (auto intro!: edge_declaration_newline_free)
  have "into_dot g = header @ newline
      @ ('' '' @ join newline (map node_declaration (actors g)) @ newline
      @ ('' '' @ join newline (map edge_declaration (iter_edges g)) @ newline
      @ ('' '' @ footer @ newline)))"
    by (simp add: into_dot_def Let_def)
  then show ?thesis
    by (simp only: lines_of_header lines_of_section [OF n] lines_of_section [OF e] lines_of_footer)
qed

theorem into_dot_lines_witness:
  "(''A'' \<in> set (actors chain_graph) \<and> (''A'', ''X'', ''B'') \<in> set (iter_edges chain_graph))
   \<and> lines_of (into_dot chain_graph)
     = header_lines
       @ ['' A [label=A]'', ''B [label=B]'', ''C [label=C]'']
       @ ['' A -> B [label=X]'', ''B -> C [label=Y]'']
       @ ['' }'', '''']"
  using into_dot_lines [of chain_graph]
  by (simp add: chain_graph_def iter_edges_def indent_first_def node_declaration_def
      edge_declaration_def)

section \<open>What extraction does to the source graph\<close>

text \<open>
  In Python a label set is an object, and \<^verbatim>\<open>set(msgs)\<close> makes a new one. To say
  which objects two graphs share, the label sets are kept in a store here: a cell for
  every set object that was created, and the number of the next one. An edge
  dictionary then holds references to label sets.
\<close>

type_synonym ref = nat

record store =
  cells :: "ref \<Rightarrow> string list"
  next_ref :: ref

text \<open>\<^verbatim>\<open>set(members)\<close>: a new set object.\<close>

definition new_set :: "string list \<Rightarrow> store \<Rightarrow> ref \<times> store" where
  "new_set members st =
     (next_ref st, \<lparr>cells = (cells st)(next_ref st := members), next_ref = Suc (next_ref st)\<rparr>)"

type_synonym ref_edges = "(string \<times> (string \<times> ref) list) list"

text \<open>
  The loop that fills the resulting graph, on references: for every edge between
  visited actors \<^verbatim>\<open>resulting_graph.edges[source_actor][target_actor] = set(msgs)\<close>
  stores a reference to a new set with the members of \<^verbatim>\<open>msgs\<close>.
\<close>

definition ref_copy_targets :: "string list \<Rightarrow> string \<Rightarrow> (string \<times> ref) list
    \<Rightarrow> store \<times> ref_edges \<Rightarrow> store \<times> ref_edges" where
  "ref_copy_targets seen_actors source_actor target_actors =
     fold (\<lambda>(target_actor, msgs) (st, resulting_edges).
             if target_actor \<notin> set seen_actors then (st, resulting_edges)
             else (case new_set (cells st msgs) st of
                     (copy, st') \<Rightarrow>
                       (st', dd_modify [] (dict_set target_actor copy) source_actor
                               resulting_edges)))
       target_actors"

definition ref_copy_seen_edges :: "ref_edges \<Rightarrow> string list \<Rightarrow> store \<Rightarrow> store \<times> ref_edges" where
  "ref_copy_seen_edges source_edges seen_actors st =
     fold (\<lambda>(source_actor, target_actors) acc.
             if source_actor \<notin> set seen_actors then acc
             else ref_copy_targets seen_actors source_actor target_actors acc)
       source_edges (st, [])"

text \<open>
  \<^verbatim>\<open>self.edges[source_actor][target_actor].add(msg)\<close> of \<^verbatim>\<open>add_edge\<close>, on references: the
  label set found for the edge is changed in place; when there is none, the
  \<^verbatim>\<open>defaultdict\<close> creates a new empty set first.
\<close>

definition ref_add_edge :: "string \<Rightarrow> string \<Rightarrow> string \<Rightarrow> store \<times> ref_edges
    \<Rightarrow> store \<times> ref_edges" where
  "ref_add_edge source_actor msg target_actor = (\<lambda>(st, es).
     case (case map_of es source_actor of
             None \<Rightarrow> None
           | Some target_actors \<Rightarrow> map_of target_actors target_actor) of
       Some msgs \<Rightarrow> (st\<lparr>cells := (cells st)(msgs := set_add (cells st msgs) msg)\<rparr>, es)
     | None \<Rightarrow>
         (case new_set [] st of
            (msgs, st') \<Rightarrow>
              (st'\<lparr>cells := (cells st')(msgs := set_add (cells st' msgs) msg)\<rparr>,
               dd_modify [] (dict_set target_actor msgs) source_actor es)))"

text \<open>The edge dictionary a store and a dictionary of references stand for, and the
  references a dictionary holds.\<close>

definition deref :: "store \<Rightarrow> ref_edges \<Rightarrow> (string \<times> (string \<times> string list) list) list" where
  "deref st es = map (\<lambda>(source_actor, target_actors).
     (source_actor, map (\<lambda>(target_actor, msgs). (target_actor, cells st msgs)) target_actors)) es"

definition refs_of :: "ref_edges \<Rightarrow> ref set" where
  "refs_of es = (\<Union>e \<in> set es. snd ` set (snd e))"

lemma map_dd_modify:
  assumes "\<And>v. G (f v) = f' (G v)"
  shows "map (\<lambda>(k, v). (k, G v)) (dd_modify dflt f k d)
     = dd_modify (G dflt) f' k (map (\<lambda>(k, v). (k, G v)) d)"
  by (induction d) (auto simp: assms)

lemma deref_dd_modify:
  "deref st (dd_modify [] (dict_set t r) s es)
     = dd_modify [] (dict_set t (cells st r)) s (deref st es)"
proof -
  have inner: "map (\<lambda>(t, r). (t, cells st r)) (dict_set t r ts)
      = dict_set t (cells st r) (map (\<lambda>(t, r). (t, cells st r)) ts)" for ts
    unfolding dict_set_def by (rule map_dd_modify) simp
  show ?thesis
    unfolding deref_def
    using map_dd_modify [of "map (\<lambda>(t, r). (t, cells st r))" "dict_set t r"
        "dict_set t (cells st r)" "[]" s es]
    by (simp add: inner)
qed

lemma deref_cong:
  assumes "\<forall>r \<in> refs_of es. cells st' r = cells st r"
  shows "deref st' es = deref st es"
  using assms unfolding deref_def refs_of_def by (auto simp: image_iff) force+

lemma set_dd_modify:
  "set (dd_modify dflt f k d) \<subseteq> set d \<union> {(k, f dflt)} \<union> {(k, f v) | v. (k, v) \<in> set d}"
  by (induction dflt f k d rule: dd_modify.induct) auto

lemma refs_of_dd_modify:
  "refs_of (dd_modify [] (dict_set t r) s es) \<subseteq> insert r (refs_of es)"
proof -
  have inner: "snd ` set (dict_set t r ts) \<subseteq> insert r (snd ` set ts)" for ts
    unfolding dict_set_def using set_dd_modify [of r "\<lambda>_. r" t ts] by auto
  have "e \<in> set (dd_modify [] (dict_set t r) s es) \<Longrightarrow> snd ` set (snd e) \<subseteq> insert r (refs_of es)"
    for e
  proof -
    assume "e \<in> set (dd_modify [] (dict_set t r) s es)"
    with set_dd_modify [of "[]" "dict_set t r" s es]
    consider "e \<in> set es" | "e = (s, dict_set t r [])"
      | v where "e = (s, dict_set t r v)" "(s, v) \<in> set es"
      by blast
    then show ?thesis
    proof cases
      case 1
      then show ?thesis by (auto simp: refs_of_def)
    next
      case 2
      then show ?thesis by (simp add: dict_set_def)
    next
      case 3
      from 3(2) have "snd ` set v \<subseteq> refs_of es" by (force simp: refs_of_def)
      with inner [of v] 3(1) show ?thesis by auto
    qed
  qed
  then show ?thesis unfolding refs_of_def by blast
qed

text \<open>A state whose dictionary holds only references created at or after \<open>n\<close>, and
  whose cells below \<open>n\<close> are those of \<open>st0\<close>.\<close>

definition fresh_from :: "ref \<Rightarrow> store \<Rightarrow> store \<times> ref_edges \<Rightarrow> bool" where
  "fresh_from n st0 = (\<lambda>(st, es).
     n \<le> next_ref st \<and> refs_of es \<subseteq> {n..<next_ref st} \<and> (\<forall>r<n. cells st r = cells st0 r))"

lemma ref_copy_targets_Cons:
  "ref_copy_targets seen s ((t, a) # ts) (st, res) =
     ref_copy_targets seen s ts
       (if t \<notin> set seen then (st, res)
        else (snd (new_set (cells st a) st),
              dd_modify [] (dict_set t (fst (new_set (cells st a) st))) s res))"
  by (simp add: ref_copy_targets_def split: prod.splits)

lemma fresh_from_copy:
  assumes "fresh_from n st0 (st, res)" "a < n"
  shows "fresh_from n st0 (snd (new_set (cells st a) st),
      dd_modify [] (dict_set t (fst (new_set (cells st a) st))) s res)"
    and "deref (snd (new_set (cells st a) st))
        (dd_modify [] (dict_set t (fst (new_set (cells st a) st))) s res)
      = dd_modify [] (dict_set t (cells st0 a)) s (deref st res)"
proof -
  let ?r = "next_ref st"
  let ?st1 = "\<lparr>cells = (cells st)(?r := cells st a), next_ref = Suc ?r\<rparr>"
  from assms(1) have n: "n \<le> ?r" and refs: "refs_of res \<subseteq> {n..<?r}"
    and old: "\<forall>r<n. cells st r = cells st0 r"
    by (simp_all add: fresh_from_def)
  have new: "new_set (cells st a) st = (?r, ?st1)" by (simp add: new_set_def)
  from refs n have "insert ?r (refs_of res) \<subseteq> {n..<Suc ?r}" by auto
  with refs_of_dd_modify [of t ?r s res]
  have "refs_of (dd_modify [] (dict_set t ?r) s res) \<subseteq> {n..<Suc ?r}" by (rule order_trans)
  with n old show "fresh_from n st0 (snd (new_set (cells st a) st),
      dd_modify [] (dict_set t (fst (new_set (cells st a) st))) s res)"
    unfolding new by (auto simp: fresh_from_def)
  from refs have "\<forall>r \<in> refs_of res. cells ?st1 r = cells st r" by auto
  then have "deref ?st1 res = deref st res" by (rule deref_cong)
  moreover from old assms(2) have "cells ?st1 ?r = cells st0 a" by simp
  ultimately show "deref (snd (new_set (cells st a) st))
        (dd_modify [] (dict_set t (fst (new_set (cells st a) st))) s res)
      = dd_modify [] (dict_set t (cells st0 a)) s (deref st res)"
    unfolding new by (simp add: deref_dd_modify)
qed

lemma ref_copy_targets_sim:
  assumes "fresh_from n st0 (st, res)" "snd ` set ts \<subseteq> {..<n}" "edges rg = deref st res"
  shows "fresh_from n st0 (ref_copy_targets seen s ts (st, res))
    \<and> deref (fst (ref_copy_targets seen s ts (st, res))) (snd (ref_copy_targets seen s ts (st, res)))
      = edges (copy_targets seen s (map (\<lambda>(t, r). (t, cells st0 r)) ts) rg)"
  using assms
proof (induction ts arbitrary: st res rg)
  case Nil
  then show ?case by (simp add: ref_copy_targets_def copy_targets_def)
next
  case (Cons e ts)
  obtain t a where e: "e = (t, a)" by (cases e)
  from Cons.prems(2) have a: "a < n" and ts: "snd ` set ts \<subseteq> {..<n}" by (auto simp: e)
  show ?case
  proof (cases "t \<in> set seen")
    case False
    with Cons.IH [OF Cons.prems(1) ts Cons.prems(3)] show ?thesis
      by (simp add: e ref_copy_targets_Cons copy_targets_Cons)
  next
    case True
    note f = fresh_from_copy [OF Cons.prems(1) a, of t s]
    have "edges (copy_edge s t (cells st0 a) rg)
        = dd_modify [] (dict_set t (cells st0 a)) s (deref st res)"
      by (simp add: copy_edge_def Cons.prems(3))
    with f(2) have "edges (copy_edge s t (cells st0 a) rg)
        = deref (snd (new_set (cells st a) st))
            (dd_modify [] (dict_set t (fst (new_set (cells st a) st))) s res)"
      by simp
    from Cons.IH [OF f(1) ts this] True show ?thesis
      by (simp add: e ref_copy_targets_Cons copy_targets_Cons)
  qed
qed

lemma deref_Cons:
  "deref st ((s, ts) # es) = (s, map (\<lambda>(t, r). (t, cells st r)) ts) # deref st es"
  by (simp add: deref_def)

lemma refs_of_Cons: "refs_of ((s, ts) # es) = snd ` set ts \<union> refs_of es"
  by (simp add: refs_of_def)

lemma ref_copy_sources_sim:
  assumes "fresh_from n st0 (st, res)" "refs_of src \<subseteq> {..<n}" "edges rg = deref st res"
  shows "fresh_from n st0
       (fold (\<lambda>(source_actor, target_actors) acc.
                if source_actor \<notin> set seen then acc
                else ref_copy_targets seen source_actor target_actors acc) src (st, res))
    \<and> deref
       (fst (fold (\<lambda>(source_actor, target_actors) acc.
                if source_actor \<notin> set seen then acc
                else ref_copy_targets seen source_actor target_actors acc) src (st, res)))
       (snd (fold (\<lambda>(source_actor, target_actors) acc.
                if source_actor \<notin> set seen then acc
                else ref_copy_targets seen source_actor target_actors acc) src (st, res)))
      = edges (copy_sources seen (deref st0 src) rg)"
  using assms
proof (induction src arbitrary: st res rg)
  case Nil
  then show ?case by (simp add: copy_sources_def deref_def)
next
  case (Cons e src)
  obtain s ts where e: "e = (s, ts)" by (cases e)
  from Cons.prems(2) have ts: "snd ` set ts \<subseteq> {..<n}" and src: "refs_of src \<subseteq> {..<n}"
    by (simp_all add: e refs_of_Cons)
  show ?case
  proof (cases "s \<in> set seen")
    case False
    with Cons.IH [OF Cons.prems(1) src Cons.prems(3)] show ?thesis
      by (simp add: e deref_Cons copy_sources_Cons)
  next
    case True
    obtain st1 res1 where c: "ref_copy_targets seen s ts (st, res) = (st1, res1)"
      by (rule prod.exhaust)
    from ref_copy_targets_sim [OF Cons.prems(1) ts Cons.prems(3), of seen s]
    have f: "fresh_from n st0 (st1, res1)"
      and d: "edges (copy_targets seen s (map (\<lambda>(t, r). (t, cells st0 r)) ts) rg) = deref st1 res1"
      by (simp_all add: c)
    from Cons.IH [OF f src d] True show ?thesis
      by (simp add: e deref_Cons copy_sources_Cons c)
  qed
qed

lemma ref_copy_seen_edges_sim:
  assumes "refs_of src \<subseteq> {..<next_ref st}" "deref st src = edges g"
  shows "fresh_from (next_ref st) st (ref_copy_seen_edges src seen st)"
    and "deref (fst (ref_copy_seen_edges src seen st)) (snd (ref_copy_seen_edges src seen st))
      = edges (copy_seen_edges g seen)"
proof -
  have f: "fresh_from (next_ref st) st (st, [])"
    by (simp add: fresh_from_def refs_of_def)
  have e: "edges new_graph = deref st []"
    by (simp add: new_graph_def deref_def)
  note sim = ref_copy_sources_sim [OF f assms(1) e, of seen]
  from sim show "fresh_from (next_ref st) st (ref_copy_seen_edges src seen st)"
    by (simp add: ref_copy_seen_edges_def)
  from sim show "deref (fst (ref_copy_seen_edges src seen st))
      (snd (ref_copy_seen_edges src seen st)) = edges (copy_seen_edges g seen)"
    by (simp add: ref_copy_seen_edges_def copy_seen_edges_alt assms(2))
qed

lemma lookup_in_refs_of:
  assumes "map_of es s = Some ts" "map_of ts t = Some r"
  shows "r \<in> refs_of es"
proof -
  from assms have "(s, ts) \<in> set es" "(t, r) \<in> set ts" by (auto dest: map_of_SomeD)
  then show ?thesis unfolding refs_of_def by force
qed

lemma fresh_from_ref_add_edge:
  assumes "fresh_from n st0 acc"
  shows "fresh_from n st0 (ref_add_edge s m t acc)"
proof -
  obtain st es where acc: "acc = (st, es)" by (cases acc)
  from assms have n: "n \<le> next_ref st" and refs: "refs_of es \<subseteq> {n..<next_ref st}"
    and old: "\<forall>r<n. cells st r = cells st0 r"
    by (simp_all add: acc fresh_from_def)
  show ?thesis
  proof (cases "case map_of es s of None \<Rightarrow> None | Some ts \<Rightarrow> map_of ts t")
    case (Some r)
    then have "r \<in> refs_of es"
      by (auto split: option.splits intro: lookup_in_refs_of)
    with refs have "n \<le> r" by auto
    with n refs old Some show ?thesis
      by (simp add: acc ref_add_edge_def fresh_from_def)
  next
    case None
    let ?r = "next_ref st"
    from refs n have "insert ?r (refs_of es) \<subseteq> {n..<Suc ?r}" by auto
    with refs_of_dd_modify [of t ?r s es]
    have "refs_of (dd_modify [] (dict_set t ?r) s es) \<subseteq> {n..<Suc ?r}" by (rule order_trans)
    with n old None show ?thesis
      by (simp add: acc ref_add_edge_def fresh_from_def new_set_def)
  qed
qed

lemma fresh_from_later_edges:
  assumes "fresh_from n st0 acc"
  shows "fresh_from n st0 (fold (\<lambda>(s, m, t). ref_add_edge s m t) later_edges acc)"
  using assms
proof (induction later_edges arbitrary: acc)
  case Nil
  then show ?case by simp
next
  case (Cons e later_edges)
  obtain s m t where e: "e = (s, m, t)" by (cases e)
  from Cons.prems have "fresh_from n st0 (ref_add_edge s m t acc)"
    by (rule fresh_from_ref_add_edge)
  from Cons.IH [OF this] show ?case by (simp add: e)
qed

lemma fresh_from_deref:
  assumes "fresh_from n st0 (st, es)" "refs_of src \<subseteq> {..<n}"
  shows "deref st src = deref st0 src" "refs_of es \<inter> refs_of src = {}"
proof -
  from assms have "\<forall>r \<in> refs_of src. cells st r = cells st0 r"
    by (auto simp: fresh_from_def)
  then show "deref st src = deref st0 src" by (rule deref_cong)
  from assms show "refs_of es \<inter> refs_of src = {}"
    by (fastforce simp: fresh_from_def)
qed

lemma iter_edges_extended:
  assumes "extended_by_empty (edges g) (edges g')"
  shows "iter_edges g' = iter_edges g"
proof -
  from assms obtain ks where "edges g' = edges g @ map (\<lambda>k. (k, [])) ks"
    unfolding extended_by_empty_def by blast
  then show ?thesis
    by (simp add: iter_edges_def comp_def)
qed

text \<open>The label sets of the chain as objects \<open>0\<close> and \<open>1\<close> of a store, and the edge
  dictionary of the chain after a forward scan from \<open>A\<close>, on references.\<close>

definition chain_store :: store where
  "chain_store = \<lparr>cells = (\<lambda>_. [])(0 := [''X''], 1 := [''Y'']), next_ref = 2\<rparr>"

definition chain_refs :: ref_edges where
  "chain_refs = [(''A'', [(''B'', 0)]), (''B'', [(''C'', 1)]), (''C'', [])]"

text \<open>
  Claim C9, as the spec states it: after \<^verbatim>\<open>make_subgraph_related_to\<close> the forward edge
  map and the reverse index of the source graph are unchanged. The scans read
  \<^verbatim>\<open>self.edges[actor]\<close> and \<^verbatim>\<open>self.reverse_edges[actor]\<close>, which are \<^verbatim>\<open>defaultdict\<close>s:
  in the chain, the tight scans from \<open>A\<close> store an empty dictionary for \<open>C\<close> in the
  forward map and an empty set for \<open>A\<close> in the reverse index.
\<close>

theorem extraction_touches_source:
  "snd (make_subgraph_related_to chain_graph [''A''] True) \<noteq> chain_graph
   \<and> edges (snd (make_subgraph_related_to chain_graph [''A''] True))
       = edges chain_graph @ [(''C'', [])]
   \<and> reverse_edges (snd (make_subgraph_related_to chain_graph [''A''] True))
       = reverse_edges chain_graph @ [(''A'', [])]"
  by code_simp

text \<open>
  Claim C9, amended. For every graph, every entity list and both modes, the source
  graph keeps its actors and its list of edge triples, and its forward edge map and
  reverse index keep their entries and only gain keys with empty values. The label
  sets of the resulting graph are new objects, none shared with the source graph, and
  whatever edges are added to the resulting graph later, the label sets of the source
  graph stay as they were.
\<close>

theorem extraction_leaves_source:
  assumes "make_subgraph_related_to g leapp_entities tight = (resulting_graph, g')"
    and "refs_of source_edges \<subseteq> {..<next_ref st}"
    and "deref st source_edges = edges g'"
    and "ref_copy_seen_edges source_edges (actors resulting_graph) st = (st1, resulting_edges)"
    and "fold (\<lambda>(s, m, t). ref_add_edge s m t) later_edges (st1, resulting_edges)
           = (st2, resulting_edges2)"
  shows "actors g' = actors g \<and> iter_edges g' = iter_edges g
     \<and> extended_by_empty (edges g) (edges g')
     \<and> extended_by_empty (reverse_edges g) (reverse_edges g')
     \<and> deref st1 resulting_edges = edges resulting_graph
     \<and> refs_of resulting_edges \<inter> refs_of source_edges = {}
     \<and> deref st2 source_edges = edges g'"
proof -
  from assms(1) have g': "g' = snd (seen_actors_of g leapp_entities tight)"
    and r: "resulting_graph = copy_seen_edges g' (fst (seen_actors_of g leapp_entities tight))"
    by (auto simp: make_subgraph_related_to_eq)
  from seen_actors_of_correct(2) [of g leapp_entities tight] have fr: "scan_frame g g'"
    by (simp add: g')
  then have 1: "actors g' = actors g" "extended_by_empty (edges g) (edges g')"
    "extended_by_empty (reverse_edges g) (reverse_edges g')"
    by (simp_all add: scan_frame_def)
  note 2 = iter_edges_extended [OF 1(2)]
  have a: "actors resulting_graph = fst (seen_actors_of g leapp_entities tight)"
    by (simp add: r)
  note sim = ref_copy_seen_edges_sim [OF assms(2,3), of "actors resulting_graph"]
  have rr: "copy_seen_edges g' (actors resulting_graph) = resulting_graph"
    by (simp add: a r [symmetric])
  from sim(2) [unfolded assms(4) fst_conv snd_conv rr]
  have 3: "deref st1 resulting_edges = edges resulting_graph" .
  from sim(1) [unfolded assms(4)]
  have f1: "fresh_from (next_ref st) st (st1, resulting_edges)" .
  from fresh_from_later_edges [OF f1, of later_edges]
  have f2: "fresh_from (next_ref st) st (st2, resulting_edges2)"
    by (simp add: assms(5))
  note 4 = fresh_from_deref(2) [OF f1 assms(2)]
  from fresh_from_deref(1) [OF f2 assms(2)] have 5: "deref st2 source_edges = edges g'"
    by (simp add: assms(3))
  from 1 2 3 4 5 show ?thesis by simp
qed

theorem extraction_leaves_source_witness:
  "refs_of chain_refs \<subseteq> {..<next_ref chain_store}
   \<and> deref chain_store chain_refs = edges (snd (make_subgraph_related_to chain_graph [''A''] True))
   \<and> iter_edges (snd (make_subgraph_related_to chain_graph [''A''] True)) = iter_edges chain_graph
   \<and> snd (ref_copy_seen_edges chain_refs [''A'', ''B'', ''C''] chain_store)
       = [(''A'', [(''B'', 2)]), (''B'', [(''C'', 3)])]
   \<and> deref (fst (fold (\<lambda>(s, m, t). ref_add_edge s m t) [(''A'', ''W'', ''B''), (''C'', ''V'', ''A'')]
              (ref_copy_seen_edges chain_refs [''A'', ''B'', ''C''] chain_store))) chain_refs
       = edges (snd (make_subgraph_related_to chain_graph [''A''] True))"
proof -
  let ?m = "make_subgraph_related_to chain_graph [''A''] True"
  let ?c = "ref_copy_seen_edges chain_refs [''A'', ''B'', ''C''] chain_store"
  let ?l = "fold (\<lambda>(s, m, t). ref_add_edge s m t) [(''A'', ''W'', ''B''), (''C'', ''V'', ''A'')] ?c"
  have a: "actors (fst ?m) = [''A'', ''B'', ''C'']" by code_simp
  have e: "edges (snd ?m) = [(''A'', [(''B'', [''X''])]), (''B'', [(''C'', [''Y''])]), (''C'', [])]"
    by code_simp
  have 1: "refs_of chain_refs \<subseteq> {..<next_ref chain_store}"
    by (simp add: refs_of_def chain_refs_def chain_store_def)
  have 2: "deref chain_store chain_refs = edges (snd ?m)"
    unfolding e by (simp add: deref_def chain_refs_def chain_store_def)
  have 3: "ref_copy_seen_edges chain_refs (actors (fst ?m)) chain_store = (fst ?c, snd ?c)"
    unfolding a by simp
  have 4: "snd ?c = [(''A'', [(''B'', 2)]), (''B'', [(''C'', 3)])]"
    by code_simp
  have 5: "fold (\<lambda>(s, m, t). ref_add_edge s m t) [(''A'', ''W'', ''B''), (''C'', ''V'', ''A'')]
      (fst ?c, snd ?c) = (fst ?l, snd ?l)"
    by simp
  have 0: "?m = (fst ?m, snd ?m)" by simp
  from extraction_leaves_source [OF 0 1 2 3 5] 1 2 4 show ?thesis
    by simp
qed

end
